theory Spec2Isabelle
  imports Complex_Main "HOL-Library.Multiset"
begin

section \<open>Geometric primitives: Point and Rect\<close>

text \<open>
  The coordinates of the program are C++ doubles.  They are modelled as real numbers:
  every arithmetic operation is the exact one, \<open>EPS\<close> is the machine epsilon
  \<open>2\<^sup>-\<^sup>5\<^sup>2\<close> of \<open>std::numeric_limits<double>::epsilon()\<close> and \<open>DBL_MAX\<close> is
  the largest finite double, \<open>(2\<^sup>5\<^sup>3 - 1) * 2\<^sup>9\<^sup>7\<^sup>1\<close>.  The concrete inputs used below
  are dyadic numbers on which the double operations of the program are exact (or
  overflow to infinity where the real result exceeds \<open>DBL_MAX\<close>), so that the real
  model and the program take the same branches there.

  The lemmas that hold for all inputs are statements about this model.  Two of its
  operations differ from the doubles on large values: \<open>m + EPS\<close> and \<open>m - EPS\<close> are
  rounded once \<open>m\<close> is 2 or more in absolute value, and are \<open>m\<close> itself from 4 on, which
  makes the tolerant comparisons of \<open>in_quad\<close> and \<open>contains\<close> strict there, and \<open>sqr\<close>
  overflows to infinity from differences of about \<open>1.34 \<cdot> 10\<^sup>1\<^sup>5\<^sup>4\<close>.  The comparisons
  of \<open>PointSet::less\<close> and the test \<open>Point::operator==\<close> of a point against itself, on
  which the search order of the tree rests, are the same on doubles and on reals.
\<close>

definition EPS :: real where
  "EPS = 1 / 2 ^ 52"

definition DBL_MAX :: real where
  "DBL_MAX = (2 ^ 53 - 1) * 2 ^ 971"

datatype point = Point (m_x: real) (m_y: real)

datatype quadrant = First | Second | Third | Fourth

definition sqr :: "real \<Rightarrow> real" where
  "sqr v = v * v"

text \<open>\<open>Point::distance\<close>\<close>

definition distance :: "point \<Rightarrow> point \<Rightarrow> real" where
  "distance this other = sqrt (sqr (m_x this - m_x other) + sqr (m_y this - m_y other))"

text \<open>\<open>Point::in_quad\<close>\<close>

fun in_quad :: "point \<Rightarrow> point \<Rightarrow> quadrant \<Rightarrow> bool" where
  "in_quad this other First = (m_x other > m_x this - EPS \<and> m_y other > m_y this - EPS)"
| "in_quad this other Second = (m_x other < m_x this + EPS \<and> m_y other > m_y this - EPS)"
| "in_quad this other Third = (m_x other < m_x this + EPS \<and> m_y other < m_y this + EPS)"
| "in_quad this other Fourth = (m_x other > m_x this - EPS \<and> m_y other < m_y this + EPS)"

text \<open>\<open>Point::operator==\<close> and \<open>Point::operator<\<close>\<close>

definition point_eq :: "point \<Rightarrow> point \<Rightarrow> bool" where
  "point_eq this other =
     (\<bar>m_x this - m_x other\<bar> < EPS \<and> \<bar>m_y this - m_y other\<bar> < EPS)"

definition point_less :: "point \<Rightarrow> point \<Rightarrow> bool" where
  "point_less this other =
     (m_x this < m_x other \<or> (\<bar>m_x this - m_x other\<bar> < EPS \<and> m_y this < m_y other))"

datatype rect = Rect (m_left_bottom: point) (m_right_top: point)

definition xmin :: "rect \<Rightarrow> real" where "xmin r = m_x (m_left_bottom r)"
definition ymin :: "rect \<Rightarrow> real" where "ymin r = m_y (m_left_bottom r)"
definition xmax :: "rect \<Rightarrow> real" where "xmax r = m_x (m_right_top r)"
definition ymax :: "rect \<Rightarrow> real" where "ymax r = m_y (m_right_top r)"

text \<open>\<open>Rect::contains\<close>\<close>

definition contains :: "rect \<Rightarrow> point \<Rightarrow> bool" where
  "contains r p = (in_quad (m_left_bottom r) p First \<and> in_quad (m_right_top r) p Third)"

text \<open>\<open>Rect::distance\<close>, branch by branch\<close>

definition rect_distance :: "rect \<Rightarrow> point \<Rightarrow> real" where
  "rect_distance r p =
     (if contains r p then 0
      else if in_quad (m_right_top r) p First then distance (m_right_top r) p
      else if in_quad (m_left_bottom r) p Third then distance (m_left_bottom r) p
      else if in_quad (m_right_top r) p Fourth then
        (if m_y p > ymin r then m_x p - xmax r else distance p (Point (xmax r) (ymin r)))
      else if in_quad (m_left_bottom r) p Second then
        (if m_y p > ymin r then xmin r - m_x p else distance p (Point (xmin r) (ymax r)))
      else (if m_y p > ymax r then m_y p - ymax r else ymin r - m_y p))"

text \<open>\<open>Rect::intersects\<close>\<close>

definition intersects :: "rect \<Rightarrow> rect \<Rightarrow> bool" where
  "intersects this other =
     (\<not> (ymin other > ymax this \<or> ymax other < ymin this
         \<or> xmin other > xmax this \<or> xmax other < xmin this))"


section \<open>Nodes of the kd-tree\<close>

text \<open>
  A \<open>std::shared_ptr<Node>\<close> is a value of type \<open>tree\<close>: \<open>Null\<close> is the null pointer,
  and a node carries the address it was allocated at, its fields, the two subtrees it
  owns and its \<open>parent\<close>, a weak pointer, as the address of the node it refers to
  (\<open>None\<close> for an empty weak pointer).  A raw \<open>Node *\<close> is an address; it is dereferenced
  by looking the address up in the tree that owns the node (\<open>node_at\<close>).
\<close>

type_synonym addr = nat

datatype tree =
    Null
  | Node (n_addr: addr) (n_point: point) (n_rect: rect) (n_size: nat)
         (n_left: tree) (n_right: tree) (n_parent: "addr option")

datatype error = NullDeref | EmptyVector

text \<open>\<open>Node::Node(const Point &)\<close>: the rect is the point, the size 1, no children, no parent.\<close>

definition new_node :: "addr \<Rightarrow> point \<Rightarrow> tree" where
  "new_node a p = Node a p (Rect p p) 1 Null Null None"

text \<open>Field assignments \<open>n->left = v\<close>, \<open>n->right = v\<close>, \<open>n->parent = v\<close> on a node.\<close>

fun with_left :: "tree \<Rightarrow> tree \<Rightarrow> tree" where
  "with_left (Node a p r s l rt par) v = Node a p r s v rt par"
| "with_left Null v = Null"

fun with_right :: "tree \<Rightarrow> tree \<Rightarrow> tree" where
  "with_right (Node a p r s l rt par) v = Node a p r s l v par"
| "with_right Null v = Null"

fun with_parent :: "tree \<Rightarrow> addr option \<Rightarrow> tree" where
  "with_parent (Node a p r s l rt par) v = Node a p r s l rt v"
| "with_parent Null v = Null"

text \<open>\<open>Node::update_rect_by\<close>, on the rect of the node\<close>

fun update_rect_by :: "rect \<Rightarrow> tree \<Rightarrow> rect" where
  "update_rect_by rc Null = rc"
| "update_rect_by rc (Node a p r s l rt par) =
     Rect (Point (min (xmin rc) (xmin r)) (min (ymin rc) (ymin r)))
          (Point (max (xmax rc) (xmax r)) (max (ymax rc) (ymax r)))"

fun get_size :: "tree \<Rightarrow> nat" where
  "get_size Null = 0"
| "get_size (Node a p r s l rt par) = s"

text \<open>\<open>Node::update_data\<close> (a method: it is only called on a node)\<close>

fun update_data :: "tree \<Rightarrow> tree" where
  "update_data (Node a p r s l rt par) =
     (let s' = 1 + get_size l + get_size rt; r0 = Rect p p in
      if l = Null \<and> rt = Null then Node a p r0 s' l rt par
      else Node a p (update_rect_by (update_rect_by r0 l) rt) s' l rt par)"
| "update_data Null = Null"


section \<open>Building a tree from a vector of nodes\<close>

text \<open>\<open>PointSet::less\<close> on points and on nodes\<close>

definition less_pt :: "point \<Rightarrow> point \<Rightarrow> bool \<Rightarrow> bool" where
  "less_pt lhs rhs check_x = (if check_x then m_x lhs < m_x rhs else m_y lhs < m_y rhs)"

definition less_node :: "tree \<Rightarrow> tree \<Rightarrow> bool \<Rightarrow> bool" where
  "less_node lhs rhs check_x = less_pt (n_point lhs) (n_point rhs) check_x"

text \<open>
  \<open>std::sort\<close> with the comparator \<open>less(lhs, rhs, check_x)\<close> orders the nodes by the
  coordinate of the axis.  The library leaves the order of nodes with equal coordinates
  open; the model takes the stable order (\<open>sort_key\<close>).
\<close>

definition axis_key :: "bool \<Rightarrow> tree \<Rightarrow> real" where
  "axis_key check_x n = (if check_x then m_x (n_point n) else m_y (n_point n))"

text \<open>The loop that moves the median back to the first node of a run of equal coordinates.\<close>

fun shift_median :: "bool \<Rightarrow> tree list \<Rightarrow> nat \<Rightarrow> nat" where
  "shift_median check_x ns 0 = 0"
| "shift_median check_x ns (Suc m) =
     (if \<not> less_node (ns ! m) (ns ! Suc m) check_x then shift_median check_x ns m
      else Suc m)"

lemma shift_median_le: "shift_median check_x ns m \<le> m"
  by (induction m) auto

function build_tree :: "tree list \<Rightarrow> bool \<Rightarrow> tree" where
  "build_tree ns check_x =
     (if ns = [] then Null
      else
        let srt = sort_key (axis_key check_x) ns;
            median = shift_median check_x srt (length srt div 2);
            result = srt ! median
        in update_data
             (with_right
                (with_left result (build_tree (take median srt) (\<not> check_x)))
                (build_tree (drop (Suc median) srt) (\<not> check_x))))"
  by pat_completeness auto
termination
proof (relation "measure (\<lambda>(ns, check_x). length ns)")
  show "wf (measure (\<lambda>(ns, check_x). length ns))" by simp
next
  fix ns :: "tree list" and check_x srt median result
  assume ne: "ns \<noteq> []" and s: "srt = sort_key (axis_key check_x) ns"
    and m: "median = shift_median check_x srt (length srt div 2)"
  have len: "length srt = length ns" using s by simp
  have "median \<le> length srt div 2" using m shift_median_le by simp
  moreover have "length srt div 2 < length srt" using ne len by simp
  ultimately have lt: "median < length ns" using len by simp
  show "((take median srt, \<not> check_x), (ns, check_x)) \<in> measure (\<lambda>(ns, check_x). length ns)"
    using lt len by simp
  show "((drop (Suc median) srt, \<not> check_x), (ns, check_x)) \<in> measure (\<lambda>(ns, check_x). length ns)"
    using lt len by simp
qed

declare build_tree.simps [simp del]

text \<open>\<open>PointSet::move_to_vector\<close>: the nodes in order, each moved out of its owner.\<close>

fun move_to_vector :: "tree \<Rightarrow> tree list \<Rightarrow> tree list" where
  "move_to_vector Null result = result"
| "move_to_vector (Node a p r s l rt par) result =
     move_to_vector rt (move_to_vector l result @ [Node a p r s Null Null par])"

definition rebuild_tree :: "tree \<Rightarrow> bool \<Rightarrow> tree" where
  "rebuild_tree rootn check_x = build_tree (move_to_vector rootn []) check_x"


section \<open>Insertion with rebalancing\<close>

text \<open>
  \<open>PointSet::balanced\<close>.  The test \<open>get_size(child) <= alpha * get_size(root)\<close> is
  made on doubles; with \<open>alpha = 0.65\<close> taken as the real number 13/20.
\<close>

definition alpha :: real where
  "alpha = 0.65"

definition balanced :: "tree \<Rightarrow> bool" where
  "balanced rootn =
     (real (get_size (n_left rootn)) \<le> alpha * real (get_size rootn) \<and>
      real (get_size (n_right rootn)) \<le> alpha * real (get_size rootn))"

text \<open>
  \<open>PointSet::insert\<close> returns a pointer to a \<open>shared_ptr\<close> slot of the tree (or
  \<open>nullptr\<close>) and the axis of that slot.  A slot is named by the path of child links
  that leads to it from the slot the function was called on.  The address \<open>a\<close> is the
  one the allocator gives to the new node, should one be made.
\<close>

datatype dir = L | R

fun insert_node :: "addr \<Rightarrow> tree \<Rightarrow> point \<Rightarrow> bool \<Rightarrow> tree \<times> dir list option \<times> bool" where
  "insert_node a Null pt check_x = (new_node a pt, None, False)"
| "insert_node a (Node ra rp rr rs l rt par) pt check_x =
     (if point_eq rp pt then (Node ra rp rr rs l rt par, None, False)
      else if less_pt pt rp check_x then
        (case insert_node a l pt (\<not> check_x) of
           (to, broken, prev_check) \<Rightarrow>
             let r1 = update_data (Node ra rp rr rs to rt par);
                 r2 = with_left r1 (with_parent (n_left r1) (Some ra))
             in if balanced r2 then (r2, map_option ((#) L) broken, prev_check)
                else (r2, Some [], check_x))
      else
        (case insert_node a rt pt (\<not> check_x) of
           (to, broken, prev_check) \<Rightarrow>
             let r1 = update_data (Node ra rp rr rs l to par);
                 r2 = with_right r1 (with_parent (n_right r1) (Some ra))
             in if balanced r2 then (r2, map_option ((#) R) broken, prev_check)
                else (r2, Some [], check_x)))"

fun get_slot :: "dir list \<Rightarrow> tree \<Rightarrow> tree" where
  "get_slot [] t = t"
| "get_slot (d # ds) Null = Null"
| "get_slot (L # ds) (Node a p r s l rt par) = get_slot ds l"
| "get_slot (R # ds) (Node a p r s l rt par) = get_slot ds rt"

fun set_slot :: "dir list \<Rightarrow> tree \<Rightarrow> tree \<Rightarrow> tree" where
  "set_slot [] t v = v"
| "set_slot (d # ds) Null v = Null"
| "set_slot (L # ds) (Node a p r s l rt par) v = Node a p r s (set_slot ds l v) rt par"
| "set_slot (R # ds) (Node a p r s l rt par) v = Node a p r s l (set_slot ds rt v) par"

lemma size_with_parent [simp]: "size (with_parent t v) = size t"
  by (cases t) simp_all

text \<open>\<open>PointSet::set_parents\<close> reads \<open>node->left\<close> first: a null \<open>node\<close> is dereferenced.\<close>

fun set_parents :: "tree \<Rightarrow> error + tree" where
  "set_parents Null = Inl NullDeref"
| "set_parents (Node a p r s l rt par) =
     (case (if l \<noteq> Null then set_parents (with_parent l (Some a)) else Inr l) of
        Inl e \<Rightarrow> Inl e
      | Inr l' \<Rightarrow>
          (case (if rt \<noteq> Null then set_parents (with_parent rt (Some a)) else Inr rt) of
             Inl e \<Rightarrow> Inl e
           | Inr rt' \<Rightarrow> Inr (Node a p r s l' rt' par)))"

text \<open>\<open>PointSet::put\<close>\<close>

definition put :: "addr \<Rightarrow> tree \<Rightarrow> point \<Rightarrow> error + tree" where
  "put a m_root pt =
     (case insert_node a m_root pt True of
        (m_root', broken, check_x) \<Rightarrow>
          (case broken of
             None \<Rightarrow> Inr m_root'
           | Some path \<Rightarrow>
               (let sub = get_slot path m_root' in
                if sub = Null then Inl NullDeref
                else
                  let parent = n_parent sub;
                      rebuilt = rebuild_tree sub check_x
                  in if rebuilt = Null then Inl NullDeref
                     else (case set_parents (with_parent rebuilt parent) of
                             Inl e \<Rightarrow> Inl e
                           | Inr sub' \<Rightarrow> Inr (set_slot path m_root' sub')))))"

text \<open>A sequence of \<open>put\<close> calls; the \<open>i\<close>-th node allocated gets the address \<open>alloc i\<close>.\<close>

fun puts :: "(nat \<Rightarrow> addr) \<Rightarrow> nat \<Rightarrow> tree \<Rightarrow> point list \<Rightarrow> error + tree" where
  "puts alloc i m_root [] = Inr m_root"
| "puts alloc i m_root (pt # pts) =
     (case put (alloc i) m_root pt of
        Inl e \<Rightarrow> Inl e
      | Inr m_root' \<Rightarrow> puts alloc (Suc i) m_root' pts)"

text \<open>\<open>PointSet::empty\<close>, \<open>PointSet::size\<close>, \<open>PointSet::contains\<close>\<close>

definition ps_empty :: "tree \<Rightarrow> bool" where
  "ps_empty m_root = (m_root = Null)"

definition ps_size :: "tree \<Rightarrow> nat" where
  "ps_size m_root = get_size m_root"

fun ps_contains :: "tree \<Rightarrow> point \<Rightarrow> bool \<Rightarrow> bool" where
  "ps_contains Null pt check_x = False"
| "ps_contains (Node a p r s l rt par) pt check_x =
     (if point_eq p pt then True
      else if less_pt pt p check_x then ps_contains l pt (\<not> check_x)
      else ps_contains rt pt (\<not> check_x))"


section \<open>Range and nearest-neighbour search\<close>

text \<open>The static \<open>PointSet::range\<close>; \<open>result\<close> is the vector of node pointers.\<close>

fun range_rec :: "tree \<Rightarrow> rect \<Rightarrow> addr list \<Rightarrow> addr list" where
  "range_rec Null rc result = result"
| "range_rec (Node a p r s l rt par) rc result =
     (if \<not> intersects r rc then result
      else
        let res1 = (if contains rc p then result @ [a] else result);
            res2 = (if l \<noteq> Null \<and> intersects (n_rect l) rc then range_rec l rc res1 else res1)
        in if rt \<noteq> Null \<and> intersects (n_rect rt) rc then range_rec rt rc res2 else res2)"

text \<open>The static \<open>PointSet::nearest\<close>; the state is \<open>(current_min, current_ans)\<close>.\<close>

fun nearest_rec :: "tree \<Rightarrow> point \<Rightarrow> real \<times> addr option \<Rightarrow> real \<times> addr option" where
  "nearest_rec Null pt st = st"
| "nearest_rec (Node a p r s l rt par) pt (current_min, current_ans) =
     (if rect_distance r pt \<ge> current_min then (current_min, current_ans)
      else
        let st1 = (if distance pt p < current_min then (distance pt p, Some a)
                   else (current_min, current_ans))
        in nearest_rec rt pt (nearest_rec l pt st1))"


section \<open>Raw node pointers and the in-order cursor\<close>

text \<open>Dereferencing a \<open>Node *\<close>: the node of the tree that lives at the address.\<close>

fun node_at :: "tree \<Rightarrow> addr \<Rightarrow> tree" where
  "node_at Null n = Null"
| "node_at (Node a p r s l rt par) n =
     (if n = a then Node a p r s l rt par
      else if node_at l n \<noteq> Null then node_at l n else node_at rt n)"

text \<open>The public \<open>PointSet::nearest(point)\<close>: \<open>current_min\<close> starts at \<open>DBL_MAX\<close>.\<close>

definition nearest :: "tree \<Rightarrow> point \<Rightarrow> error + point option" where
  "nearest m_root pt =
     (case snd (nearest_rec m_root pt (DBL_MAX, None)) of
        None \<Rightarrow> Inr None
      | Some a \<Rightarrow>
          (if node_at m_root a = Null then Inl NullDeref
           else Inr (Some (n_point (node_at m_root a)))))"

text \<open>The static \<open>PointSet::begin\<close>: the leftmost node, \<open>nullptr\<close> for the empty tree.\<close>

fun begin_node :: "tree \<Rightarrow> addr option" where
  "begin_node Null = None"
| "begin_node (Node a p r s l rt par) = (if l \<noteq> Null then begin_node l else Some a)"

text \<open>
  The second loop of \<open>PointSet::next\<close>, which follows \<open>parent\<close> links.  A weak pointer
  is expired when it is empty or when the tree owns no node at its address.  The loop
  need not end on an arbitrary pointer graph: the result is \<open>None\<close> when it does not.
\<close>

partial_function (option) climb :: "tree \<Rightarrow> addr \<Rightarrow> (error + addr option) option" where
  "climb m_root ans =
     (case node_at m_root ans of
        Null \<Rightarrow> Some (Inl NullDeref)
      | Node a p r s l rt par \<Rightarrow>
          (case par of
             None \<Rightarrow> Some (Inr None)
           | Some pa \<Rightarrow>
               (case node_at m_root pa of
                  Null \<Rightarrow> Some (Inr None)
                | Node a' p' r' s' l' rt' par' \<Rightarrow>
                    if l' \<noteq> Null \<and> n_addr l' = ans then Some (Inr (Some pa))
                    else climb m_root pa)))"

declare climb.simps [code]

text \<open>\<open>PointSet::next\<close>\<close>

definition next_node :: "tree \<Rightarrow> addr option \<Rightarrow> (error + addr option) option" where
  "next_node m_root node =
     (case node of
        None \<Rightarrow> Some (Inl NullDeref)
      | Some n \<Rightarrow>
          (case node_at m_root n of
             Null \<Rightarrow> Some (Inl NullDeref)
           | Node a p r s l rt par \<Rightarrow>
               if rt \<noteq> Null then Some (Inr (begin_node rt)) else climb m_root n))"

text \<open>
  The full traversal \<open>for (it = begin(); it != end(); ++it)\<close>, collecting \<open>*it\<close>, as
  \<open>operator<<\<close> runs it.
\<close>

partial_function (option) traverse ::
  "tree \<Rightarrow> addr option \<Rightarrow> point list \<Rightarrow> (error + point list) option" where
  "traverse m_root it acc =
     (case it of
        None \<Rightarrow> Some (Inr acc)
      | Some n \<Rightarrow>
          (case node_at m_root n of
             Null \<Rightarrow> Some (Inl NullDeref)
           | Node a p r s l rt par \<Rightarrow>
               (case next_node m_root (Some n) of
                  None \<Rightarrow> None
                | Some (Inl e) \<Rightarrow> Some (Inl e)
                | Some (Inr nx) \<Rightarrow> traverse m_root nx (acc @ [p]))))"

declare traverse.simps [code]

definition traversal :: "tree \<Rightarrow> (error + point list) option" where
  "traversal m_root = traverse m_root (begin_node m_root) []"


section \<open>The iterator\<close>

text \<open>
  \<open>iterator::m_data\<close> is a \<open>std::variant<list_t, node_t>\<close>: a vector of node pointers
  (alternative 0) or one node pointer (alternative 1).  The default constructor makes
  alternative 0 with an empty vector; \<open>iterator(list_t &&)\<close> and \<open>iterator(node_t)\<close>
  make the two alternatives.  \<open>operator==\<close> is the equality of the variants: the same
  alternative holding equal values.
\<close>

datatype iterator = ListIt "addr list" | NodeIt "addr option"

definition iterator_default :: iterator where
  "iterator_default = ListIt []"

definition it_eq :: "iterator \<Rightarrow> iterator \<Rightarrow> bool" where
  "it_eq lhs rhs = (lhs = rhs)"

text \<open>\<open>iterator::operator*\<close>\<close>

fun it_deref :: "tree \<Rightarrow> iterator \<Rightarrow> error + point" where
  "it_deref m_root (NodeIt None) = Inl NullDeref"
| "it_deref m_root (NodeIt (Some n)) =
     (if node_at m_root n = Null then Inl NullDeref else Inr (n_point (node_at m_root n)))"
| "it_deref m_root (ListIt ns) =
     (if ns = [] then Inl EmptyVector
      else if node_at m_root (last ns) = Null then Inl NullDeref
      else Inr (n_point (node_at m_root (last ns))))"

text \<open>\<open>iterator::operator++\<close>\<close>

fun it_incr :: "tree \<Rightarrow> iterator \<Rightarrow> (error + iterator) option" where
  "it_incr m_root (ListIt ns) =
     (if ns = [] then Some (Inl EmptyVector) else Some (Inr (ListIt (butlast ns))))"
| "it_incr m_root (NodeIt node) =
     (case next_node m_root node of
        None \<Rightarrow> None
      | Some (Inl e) \<Rightarrow> Some (Inl e)
      | Some (Inr nx) \<Rightarrow> Some (Inr (NodeIt nx)))"

text \<open>\<open>PointSet::begin()\<close>, \<open>PointSet::end()\<close> and the public \<open>PointSet::range(rect)\<close>\<close>

definition ps_begin :: "tree \<Rightarrow> iterator" where
  "ps_begin m_root = NodeIt (begin_node m_root)"

definition ps_end :: "tree \<Rightarrow> iterator" where
  "ps_end m_root = NodeIt None"

definition range_query :: "tree \<Rightarrow> rect \<Rightarrow> iterator \<times> iterator" where
  "range_query m_root rc = (ListIt (range_rec m_root rc []), iterator_default)"

text \<open>The points a pair of iterators yields: \<open>for (it = first; it != second; ++it)\<close>.\<close>

partial_function (option) drain ::
  "tree \<Rightarrow> iterator \<Rightarrow> iterator \<Rightarrow> point list \<Rightarrow> (error + point list) option" where
  "drain m_root it last_it acc =
     (if it_eq it last_it then Some (Inr acc)
      else
        (case it_deref m_root it of
           Inl e \<Rightarrow> Some (Inl e)
         | Inr p \<Rightarrow>
             (case it_incr m_root it of
                None \<Rightarrow> None
              | Some (Inl e) \<Rightarrow> Some (Inl e)
              | Some (Inr it') \<Rightarrow> drain m_root it' last_it (acc @ [p]))))"

declare drain.simps [code]

text \<open>\<open>n\<close> applications of \<open>operator++\<close>.\<close>

fun advance :: "tree \<Rightarrow> nat \<Rightarrow> iterator \<Rightarrow> (error + iterator) option" where
  "advance m_root 0 it = Some (Inr it)"
| "advance m_root (Suc n) it =
     (case it_incr m_root it of
        None \<Rightarrow> None
      | Some (Inl e) \<Rightarrow> Some (Inl e)
      | Some (Inr it') \<Rightarrow> advance m_root n it')"


section \<open>The k nearest neighbours\<close>

text \<open>
  \<open>std::make_heap\<close>, \<open>std::pop_heap\<close> and \<open>std::push_heap\<close> are library functions,
  specified by the heap property alone.  They are modelled by an implementation that
  keeps the heap in descending order, which is a max-heap with a largest element at the
  front: \<open>pop_heap\<close> moves the front to the back and \<open>push_heap\<close> sifts the back into
  the rest.
\<close>

fun insort_desc :: "('a \<Rightarrow> 'a \<Rightarrow> bool) \<Rightarrow> 'a \<Rightarrow> 'a list \<Rightarrow> 'a list" where
  "insort_desc lt v [] = [v]"
| "insort_desc lt v (u # us) = (if lt u v then v # u # us else u # insort_desc lt v us)"

definition make_heap :: "('a \<Rightarrow> 'a \<Rightarrow> bool) \<Rightarrow> 'a list \<Rightarrow> 'a list" where
  "make_heap lt h = foldr (insort_desc lt) h []"

definition pop_heap :: "('a \<Rightarrow> 'a \<Rightarrow> bool) \<Rightarrow> 'a list \<Rightarrow> 'a list" where
  "pop_heap lt h = (case h of [] \<Rightarrow> [] | v # vs \<Rightarrow> vs @ [v])"

definition push_heap :: "('a \<Rightarrow> 'a \<Rightarrow> bool) \<Rightarrow> 'a list \<Rightarrow> 'a list" where
  "push_heap lt h = (if h = [] then [] else insort_desc lt (last h) (butlast h))"

text \<open>The comparator \<open>less_dist\<close> of \<open>nearest(point, k)\<close>, on node pointers.\<close>

definition less_dist :: "tree \<Rightarrow> point \<Rightarrow> addr \<Rightarrow> addr \<Rightarrow> bool" where
  "less_dist m_root pt lhs rhs =
     (distance pt (n_point (node_at m_root lhs)) < distance pt (n_point (node_at m_root rhs)))"

text \<open>The first loop: the first \<open>k\<close> nodes of the traversal fill the heap.\<close>

fun seed_heap ::
  "tree \<Rightarrow> nat \<Rightarrow> addr option \<Rightarrow> addr list \<Rightarrow> (error + addr list \<times> addr option) option" where
  "seed_heap m_root 0 current heap = Some (Inr (heap, current))"
| "seed_heap m_root (Suc k) current heap =
     (case current of
        None \<Rightarrow> Some (Inl NullDeref)
      | Some n \<Rightarrow>
          (case next_node m_root current of
             None \<Rightarrow> None
           | Some (Inl e) \<Rightarrow> Some (Inl e)
           | Some (Inr nx) \<Rightarrow> seed_heap m_root k nx (heap @ [n])))"

text \<open>The second loop: every further node replaces the front of the heap when it is closer.\<close>

partial_function (option) scan_rest ::
  "tree \<Rightarrow> point \<Rightarrow> addr option \<Rightarrow> addr list \<Rightarrow> (error + addr list) option" where
  "scan_rest m_root pt current heap =
     (case current of
        None \<Rightarrow> Some (Inr heap)
      | Some n \<Rightarrow>
          (let heap' =
             (if less_dist m_root pt n (hd heap)
              then push_heap (less_dist m_root pt)
                     (butlast (pop_heap (less_dist m_root pt) heap) @ [n])
              else heap)
           in case next_node m_root current of
                None \<Rightarrow> None
              | Some (Inl e) \<Rightarrow> Some (Inl e)
              | Some (Inr nx) \<Rightarrow> scan_rest m_root pt nx heap'))"

declare scan_rest.simps [code]

text \<open>The public \<open>PointSet::nearest(point, k)\<close>\<close>

definition nearest_k :: "tree \<Rightarrow> point \<Rightarrow> nat \<Rightarrow> (error + iterator \<times> iterator) option" where
  "nearest_k m_root pt k =
     (if k = 0 then Some (Inr (iterator_default, iterator_default))
      else if k \<ge> ps_size m_root then Some (Inr (ps_begin m_root, ps_end m_root))
      else
        (case seed_heap m_root k (begin_node m_root) [] of
           None \<Rightarrow> None
         | Some (Inl e) \<Rightarrow> Some (Inl e)
         | Some (Inr (heap, current)) \<Rightarrow>
             (case scan_rest m_root pt current (make_heap (less_dist m_root pt) heap) of
                None \<Rightarrow> None
              | Some (Inl e) \<Rightarrow> Some (Inl e)
              | Some (Inr heap') \<Rightarrow> Some (Inr (ListIt heap', iterator_default)))))"


section \<open>Constructors\<close>

text \<open>
  \<open>std::set<Point>::emplace\<close>, on the ordered sequence of the elements of the set: the
  point goes before the first element that is not less than it, unless that element is
  not greater either (\<open>Point::operator<\<close> is the order).  This is what the library does
  for a strict weak order.  \<open>Point::operator<\<close> is not one on points whose \<open>x\<close>
  coordinates differ by less than \<open>EPS\<close>; on such points the result of the library
  depends on the shape of its tree and can differ from the sequence computed here.
\<close>

fun set_emplace :: "point \<Rightarrow> point list \<Rightarrow> point list" where
  "set_emplace p [] = [p]"
| "set_emplace p (e # es) =
     (if point_less e p then e # set_emplace p es
      else if point_less p e then p # e # es
      else e # es)"

text \<open>
  \<open>PointSet::PointSet(const std::string &)\<close>, from the coordinate pairs read from the
  file; the \<open>i\<close>-th node allocated gets the address \<open>alloc i\<close>.
\<close>

definition PointSet_of_file :: "(nat \<Rightarrow> addr) \<Rightarrow> point list \<Rightarrow> error + tree" where
  "PointSet_of_file alloc input =
     (let points = foldl (\<lambda>s p. set_emplace p s) [] input;
          nodes = map (\<lambda>(i, p). new_node (alloc i) p) (enumerate 0 points);
          m_root = build_tree nodes True
      in set_parents m_root)"

text \<open>
  \<open>Node::Node(const Node &)\<close> copies the point and the rect and copies the children
  recursively; \<open>size\<close> takes its default member initialiser 1 and \<open>parent\<close> stays
  empty.  The copy of the node at \<open>a\<close> is allocated at \<open>alloc a\<close>.
\<close>

fun copy_node :: "(addr \<Rightarrow> addr) \<Rightarrow> tree \<Rightarrow> tree" where
  "copy_node alloc (Node a p r s l rt par) =
     Node (alloc a) p r 1
       (if l \<noteq> Null then copy_node alloc l else Null)
       (if rt \<noteq> Null then copy_node alloc rt else Null) None"
| "copy_node alloc Null = Null"

text \<open>\<open>PointSet::PointSet(const PointSet &)\<close>\<close>

definition PointSet_copy :: "(addr \<Rightarrow> addr) \<Rightarrow> tree \<Rightarrow> error + tree" where
  "PointSet_copy alloc other =
     (let m_root = (if other \<noteq> Null then copy_node alloc other else Null)
      in set_parents m_root)"


section \<open>The baseline set\<close>

text \<open>
  \<open>rbtree::PointSet\<close> keeps its points in a \<open>std::set<Point>\<close>, here the ordered sequence
  of its elements.  \<open>put\<close> is \<open>std::set::insert\<close>; \<open>range\<close> scans the set and collects
  the points that the rect contains; \<open>nearest\<close> is \<open>std::min_element\<close> by the distance
  to the query point, the first of the least elements, and nothing for the empty set.
\<close>

definition rb_put :: "point list \<Rightarrow> point \<Rightarrow> point list" where
  "rb_put m_set p = set_emplace p m_set"

definition rb_range :: "point list \<Rightarrow> rect \<Rightarrow> point list" where
  "rb_range m_set rc = filter (contains rc) m_set"

fun min_element :: "('a \<Rightarrow> 'a \<Rightarrow> bool) \<Rightarrow> 'a list \<Rightarrow> 'a option" where
  "min_element lt [] = None"
| "min_element lt (v # vs) =
     (case min_element lt vs of
        None \<Rightarrow> Some v
      | Some u \<Rightarrow> if lt u v then Some u else Some v)"

definition rb_nearest :: "point list \<Rightarrow> point \<Rightarrow> point option" where
  "rb_nearest m_set pt = min_element (\<lambda>lhs rhs. distance pt lhs < distance pt rhs) m_set"


section \<open>Abstractions and invariants\<close>

text \<open>The nodes of a tree in order, as pairs of address and point.\<close>

fun labels_of :: "tree \<Rightarrow> (addr \<times> point) list" where
  "labels_of Null = []"
| "labels_of (Node a p r s l rt par) = labels_of l @ (a, p) # labels_of rt"

definition points_of :: "tree \<Rightarrow> point list" where
  "points_of t = map snd (labels_of t)"

definition addrs_of :: "tree \<Rightarrow> addr list" where
  "addrs_of t = map fst (labels_of t)"

definition label :: "tree \<Rightarrow> addr \<times> point" where
  "label n = (n_addr n, n_point n)"

text \<open>The size invariant: \<open>n.size = 1 + size(n.left) + size(n.right)\<close> at every node.\<close>

fun sizes_ok :: "tree \<Rightarrow> bool" where
  "sizes_ok Null = True"
| "sizes_ok (Node a p r s l rt par) =
     (s = 1 + get_size l + get_size rt \<and> sizes_ok l \<and> sizes_ok rt)"

text \<open>
  The rect invariant: the rect of every node is the union of its point and of the rects
  of its children.
\<close>

fun rects_ok :: "tree \<Rightarrow> bool" where
  "rects_ok Null = True"
| "rects_ok (Node a p r s l rt par) =
     (r = update_rect_by (update_rect_by (Rect p p) l) rt \<and> rects_ok l \<and> rects_ok rt)"

text \<open>The weight-balance invariant: \<open>balanced\<close> at every node.\<close>

fun all_balanced :: "tree \<Rightarrow> bool" where
  "all_balanced Null = True"
| "all_balanced (Node a p r s l rt par) =
     (balanced (Node a p r s l rt par) \<and> all_balanced l \<and> all_balanced rt)"

text \<open>
  The parent links: the root of the tree has the parent \<open>par\<close>, and every other node
  refers to the node that owns it.
\<close>

fun parents_ok :: "addr option \<Rightarrow> tree \<Rightarrow> bool" where
  "parents_ok par Null = True"
| "parents_ok par (Node a p r s l rt q) =
     (q = par \<and> parents_ok (Some a) l \<and> parents_ok (Some a) rt)"

text \<open>
  A well-formed node graph: no two nodes at one address, the parent of the root empty,
  every parent link right.
\<close>

definition wf_tree :: "tree \<Rightarrow> bool" where
  "wf_tree t = (distinct (addrs_of t) \<and> parents_ok None t)"

text \<open>What \<open>set_parents\<close> makes of a node whose own parent link is \<open>par\<close>.\<close>

fun fix_parents :: "addr option \<Rightarrow> tree \<Rightarrow> tree" where
  "fix_parents par Null = Null"
| "fix_parents par (Node a p r s l rt q) =
     Node a p r s (fix_parents (Some a) l) (fix_parents (Some a) rt) par"

text \<open>The nodes of a tree, each with the subtree it owns.\<close>

fun subtrees :: "tree \<Rightarrow> tree set" where
  "subtrees Null = {}"
| "subtrees (Node a p r s l rt par) =
     insert (Node a p r s l rt par) (subtrees l \<union> subtrees rt)"

text \<open>
  The search order of the kd-tree: at a node that splits on the axis \<open>cx\<close>, the points of
  the left subtree are less than the point of the node on that axis
  (\<open>less(q, p, cx)\<close>), the points of the right subtree are not, and the children split
  on the other axis.
\<close>

fun kd_ordered :: "bool \<Rightarrow> tree \<Rightarrow> bool" where
  "kd_ordered cx Null = True"
| "kd_ordered cx (Node a p r s l rt par) =
     ((\<forall>q\<in>set (points_of l). less_pt q p cx) \<and>
      (\<forall>q\<in>set (points_of rt). \<not> less_pt q p cx) \<and>
      kd_ordered (\<not> cx) l \<and> kd_ordered (\<not> cx) rt)"

text \<open>The axis of the slot at the end of a path, when the path starts on the axis \<open>cx\<close>.\<close>

fun axis_at :: "bool \<Rightarrow> dir list \<Rightarrow> bool" where
  "axis_at cx [] = cx"
| "axis_at cx (d # ds) = axis_at (\<not> cx) ds"

text \<open>
  Following the words of the specification: the distinct points of a sequence of
  inserted points, two points being the same when they are epsilon-equal.  A point
  is kept when it is not epsilon-equal to a point kept before it.
\<close>

fun eps_distinct :: "point list \<Rightarrow> point list" where
  "eps_distinct [] = []"
| "eps_distinct (p # ps) = p # filter (\<lambda>q. \<not> point_eq p q) (eps_distinct ps)"

text \<open>
  The set of the concrete scenario of the specification, as the calls \<open>put((0,0))\<close>,
  \<open>put((1,1))\<close>, \<open>put((2,2))\<close>, \<open>put((0,2))\<close>, \<open>put((2,0))\<close> on the empty set leave it,
  the \<open>i\<close>-th node allocated at the address \<open>i\<close>.
\<close>

definition scenario_tree :: tree where
  "scenario_tree =
     Node 1 (Point 1 1) (Rect (Point 0 0) (Point 2 2)) 5
       (Node 0 (Point 0 0) (Rect (Point 0 0) (Point 0 2)) 2 Null
          (Node 3 (Point 0 2) (Rect (Point 0 2) (Point 0 2)) 1 Null Null (Some 0))
          (Some 1))
       (Node 2 (Point 2 2) (Rect (Point 2 0) (Point 2 2)) 2
          (Node 4 (Point 2 0) (Rect (Point 2 0) (Point 2 0)) 1 Null Null (Some 2))
          Null (Some 1))
       None"

text \<open>A point of the closed rectangle, without tolerance.\<close>

definition inside :: "rect \<Rightarrow> point \<Rightarrow> bool" where
  "inside rc p = (xmin rc \<le> m_x p \<and> m_x p \<le> xmax rc \<and> ymin rc \<le> m_y p \<and> m_y p \<le> ymax rc)"

text \<open>The bounding box of a list of points.\<close>

definition bbox :: "point list \<Rightarrow> rect" where
  "bbox ps = Rect (Point (Min (m_x ` set ps)) (Min (m_y ` set ps)))
                  (Point (Max (m_x ` set ps)) (Max (m_y ` set ps)))"

text \<open>Every node outside the subtree in the slot at \<open>path\<close> is balanced.\<close>

fun balanced_outside :: "dir list \<Rightarrow> tree \<Rightarrow> bool" where
  "balanced_outside [] t = True"
| "balanced_outside (d # ds) Null = True"
| "balanced_outside (L # ds) (Node a p r s l rt par) =
     (balanced (Node a p r s l rt par) \<and> all_balanced rt \<and> balanced_outside ds l)"
| "balanced_outside (R # ds) (Node a p r s l rt par) =
     (balanced (Node a p r s l rt par) \<and> all_balanced l \<and> balanced_outside ds rt)"


section \<open>Evaluating distances\<close>

lemma distance_eqI:
  assumes "0 \<le> d"
    and "(m_x p - m_x q) * (m_x p - m_x q) + (m_y p - m_y q) * (m_y p - m_y q) = d * d"
  shows "distance p q = d"
  unfolding distance_def sqr_def
  by (rule real_sqrt_unique) (use assms in \<open>simp_all add: power2_eq_square\<close>)


section \<open>Field assignments\<close>

lemma with_parent_Null_iff [simp]: "with_parent t v = Null \<longleftrightarrow> t = Null"
  by (cases t) simp_all

lemma labels_with_parent [simp]: "labels_of (with_parent t v) = labels_of t"
  by (cases t) simp_all

lemma get_size_with_parent [simp]: "get_size (with_parent t v) = get_size t"
  by (cases t) simp_all

lemma n_rect_with_parent [simp]: "n_rect (with_parent t v) = n_rect t"
  by (cases t) simp_all

lemma sizes_ok_with_parent [simp]: "sizes_ok (with_parent t v) = sizes_ok t"
  by (cases t) simp_all

lemma rects_ok_with_parent [simp]: "rects_ok (with_parent t v) = rects_ok t"
  by (cases t) simp_all

lemma update_rect_by_with_parent [simp]:
  "update_rect_by rc (with_parent t v) = update_rect_by rc t"
  by (cases t) simp_all

lemma balanced_with_parent [simp]: "balanced (with_parent t v) = balanced t"
  by (cases t) (simp_all add: balanced_def)

lemma all_balanced_with_parent [simp]: "all_balanced (with_parent t v) = all_balanced t"
  by (cases t) (simp_all add: balanced_def)


lemma update_data_Node [simp]:
  "update_data (Node a p r s l rt par) =
     Node a p (update_rect_by (update_rect_by (Rect p p) l) rt) (1 + get_size l + get_size rt) l rt par"
  by (simp add: Let_def)

declare update_data.simps(1) [simp del]

lemma update_data_Null_iff [simp]: "update_data t = Null \<longleftrightarrow> t = Null"
  by (cases t) simp_all

lemma labels_update_data [simp]: "labels_of (update_data t) = labels_of t"
  by (cases t) simp_all

section \<open>Properties of \<open>build_tree\<close>\<close>

lemma build_tree_Nil [simp]: "build_tree [] check_x = Null"
  by (simp add: build_tree.simps)

lemma build_tree_Cons:
  assumes "ns \<noteq> []"
  shows "build_tree ns check_x =
     (let srt = sort_key (axis_key check_x) ns;
          median = shift_median check_x srt (length srt div 2);
          result = srt ! median
      in update_data
           (with_right
              (with_left result (build_tree (take median srt) (\<not> check_x)))
              (build_tree (drop (Suc median) srt) (\<not> check_x))))"
  using assms by (subst build_tree.simps) simp

lemma median_lt:
  assumes "ns \<noteq> []"
  shows "shift_median check_x (sort_key f ns) (length (sort_key f ns) div 2) < length ns"
proof -
  have "shift_median check_x (sort_key f ns) (length (sort_key f ns) div 2) \<le> length ns div 2"
    using shift_median_le[of check_x "sort_key f ns" "length (sort_key f ns) div 2"] by simp
  moreover have "length ns div 2 < length ns" using assms by simp
  ultimately show ?thesis by linarith
qed

lemma build_tree_step:
  assumes "ns \<noteq> []" and "Null \<notin> set ns"
  obtains srt m a p r s l rt par where
    "srt = sort_key (axis_key check_x) ns"
    "m = shift_median check_x srt (length srt div 2)"
    "m < length ns"
    "srt ! m = Node a p r s l rt par"
    "build_tree ns check_x =
       update_data (Node a p r s (build_tree (take m srt) (\<not> check_x))
                      (build_tree (drop (Suc m) srt) (\<not> check_x)) par)"
proof -
  define srt where "srt = sort_key (axis_key check_x) ns"
  define m where "m = shift_median check_x srt (length srt div 2)"
  have lt: "m < length ns" unfolding m_def srt_def using median_lt[OF assms(1)] by simp
  then have "srt ! m \<in> set ns" unfolding srt_def
    by (metis length_sort nth_mem set_sort)
  then have "srt ! m \<noteq> Null" using assms(2) by auto
  then obtain a p r s l rt par where n: "srt ! m = Node a p r s l rt par"
    by (cases "srt ! m") auto
  have "build_tree ns check_x =
       update_data (Node a p r s (build_tree (take m srt) (\<not> check_x))
                      (build_tree (drop (Suc m) srt) (\<not> check_x)) par)"
    using n unfolding build_tree_Cons[OF assms(1)] Let_def srt_def[symmetric] m_def[symmetric]
    by simp
  then show ?thesis using that srt_def m_def lt n by blast
qed


lemma build_tree_induct [consumes 1, case_names Nil Step]:
  assumes nn: "Null \<notin> set ns"
    and nil: "\<And>cx. P [] cx"
    and step: "\<And>ns cx srt m a p r s l rt par.
      ns \<noteq> [] \<Longrightarrow> Null \<notin> set ns \<Longrightarrow> srt = sort_key (axis_key cx) ns \<Longrightarrow>
      m = shift_median cx srt (length srt div 2) \<Longrightarrow> m < length ns \<Longrightarrow>
      srt ! m = Node a p r s l rt par \<Longrightarrow>
      build_tree ns cx =
        update_data (Node a p r s (build_tree (take m srt) (\<not> cx))
                       (build_tree (drop (Suc m) srt) (\<not> cx)) par) \<Longrightarrow>
      P (take m srt) (\<not> cx) \<Longrightarrow> P (drop (Suc m) srt) (\<not> cx) \<Longrightarrow> P ns cx"
  shows "P ns cx"
  using nn
proof (induction ns arbitrary: cx rule: length_induct)
  case (1 ns cx)
  show ?case
  proof (cases "ns = []")
    case True
    then show ?thesis using nil by simp
  next
    case False
    from build_tree_step[OF False "1.prems", of cx]
    obtain srt m a p r s l rt par where
      srt: "srt = sort_key (axis_key cx) ns"
      and m: "m = shift_median cx srt (length srt div 2)"
      and lt: "m < length ns"
      and n: "srt ! m = Node a p r s l rt par"
      and b: "build_tree ns cx =
         update_data (Node a p r s (build_tree (take m srt) (\<not> cx))
                        (build_tree (drop (Suc m) srt) (\<not> cx)) par)"
      by blast
    have len: "length srt = length ns" and st: "set srt = set ns" using srt by simp_all
    have l1: "length (take m srt) < length ns" using lt len by simp
    have l2: "length (drop (Suc m) srt) < length ns" using lt len by simp
    have n1: "Null \<notin> set (take m srt)" using "1.prems" st by (auto dest: in_set_takeD)
    have n2: "Null \<notin> set (drop (Suc m) srt)" using "1.prems" st by (auto dest: in_set_dropD)
    have p1: "P (take m srt) (\<not> cx)"
      using "1.IH" l1 n1 by blast
    have p2: "P (drop (Suc m) srt) (\<not> cx)"
      using "1.IH" l2 n2 by blast
    show ?thesis by (rule step[OF False "1.prems" srt m lt n b p1 p2])
  qed
qed

lemma split_at_mset:
  assumes "m < length srt"
  shows "mset (map f srt) = mset (map f (take m srt)) + {#f (srt ! m)#} + mset (map f (drop (Suc m) srt))"
proof -
  have "srt = take m srt @ srt ! m # drop (Suc m) srt"
    using assms by (simp add: id_take_nth_drop)
  then have "map f srt = map f (take m srt) @ f (srt ! m) # map f (drop (Suc m) srt)"
    by (metis list.simps(9) map_append)
  then show ?thesis by simp
qed

lemma build_tree_labels:
  assumes "Null \<notin> set ns"
  shows "mset (labels_of (build_tree ns cx)) = mset (map label ns)"
  using assms
proof (induction ns cx rule: build_tree_induct)
  case (Nil cx)
  show ?case by simp
next
  case (Step ns cx srt m a p r s l rt par)
  have len: "length srt = length ns" using Step by simp
  have "mset (map label ns) = mset (map label srt)" using Step(3) by simp
  also have "\<dots> = mset (map label (take m srt)) + {#label (srt ! m)#} + mset (map label (drop (Suc m) srt))"
    using split_at_mset[of m srt label] Step(5) len by simp
  finally have "mset (map label ns) =
      mset (map label (take m srt)) + {#label (srt ! m)#} + mset (map label (drop (Suc m) srt))" .
  moreover have "label (srt ! m) = (a, p)" using Step(6) by (simp add: label_def)
  ultimately show ?case
    using Step(8,9) unfolding Step(7) by simp
qed

lemma build_tree_sizes:
  assumes "Null \<notin> set ns"
  shows "sizes_ok (build_tree ns cx) \<and> get_size (build_tree ns cx) = length ns"
  using assms
proof (induction ns cx rule: build_tree_induct)
  case (Nil cx)
  show ?case by simp
next
  case (Step ns cx srt m a p r s l rt par)
  have len: "length srt = length ns" using Step by simp
  show ?case using Step(5,8,9) len unfolding Step(7) by simp
qed

lemma build_tree_rects:
  assumes "Null \<notin> set ns"
  shows "rects_ok (build_tree ns cx)"
  using assms
proof (induction ns cx rule: build_tree_induct)
  case (Nil cx)
  show ?case by simp
next
  case (Step ns cx srt m a p r s l rt par)
  show ?case using Step(8,9) unfolding Step(7) by simp
qed

lemma build_tree_nonnull:
  assumes "ns \<noteq> []" and "Null \<notin> set ns"
  shows "build_tree ns cx \<noteq> Null"
  using build_tree_step[OF assms, of cx] by (metis update_data_Null_iff tree.distinct(1))


section \<open>Properties of \<open>rebuild_tree\<close>\<close>

lemma move_to_vector_labels:
  "map label (move_to_vector t acc) = map label acc @ labels_of t"
  by (induction t arbitrary: acc) (simp_all add: label_def)

lemma move_to_vector_nonnull:
  "Null \<notin> set acc \<Longrightarrow> Null \<notin> set (move_to_vector t acc)"
  by (induction t arbitrary: acc) simp_all

lemma move_to_vector_empty_iff: "move_to_vector t [] = [] \<longleftrightarrow> t = Null"
proof -
  have "length (map label (move_to_vector t [])) = length (labels_of t)"
    by (simp only: move_to_vector_labels) simp
  then show ?thesis by (cases t) auto
qed

lemma rebuild_tree_labels: "mset (labels_of (rebuild_tree t cx)) = mset (labels_of t)"
proof -
  have "Null \<notin> set (move_to_vector t [])" by (rule move_to_vector_nonnull) simp
  then have "mset (labels_of (rebuild_tree t cx)) = mset (map label (move_to_vector t []))"
    unfolding rebuild_tree_def by (rule build_tree_labels)
  then show ?thesis by (simp only: move_to_vector_labels) simp
qed

lemma rebuild_tree_sizes:
  "sizes_ok (rebuild_tree t cx) \<and> get_size (rebuild_tree t cx) = length (labels_of t)"
proof -
  have nn: "Null \<notin> set (move_to_vector t [])" by (rule move_to_vector_nonnull) simp
  have "length (map label (move_to_vector t [])) = length (labels_of t)"
    by (simp only: move_to_vector_labels) simp
  then have "length (move_to_vector t []) = length (labels_of t)" by simp
  then show ?thesis using build_tree_sizes[OF nn, of cx] by (simp add: rebuild_tree_def)
qed

lemma rebuild_tree_rects: "rects_ok (rebuild_tree t cx)"
  unfolding rebuild_tree_def by (rule build_tree_rects) (rule move_to_vector_nonnull, simp)

lemma rebuild_tree_nonnull: "t \<noteq> Null \<Longrightarrow> rebuild_tree t cx \<noteq> Null"
  unfolding rebuild_tree_def
  by (rule build_tree_nonnull) (simp_all add: move_to_vector_empty_iff move_to_vector_nonnull)

lemma sizes_ok_get_size: "sizes_ok t \<Longrightarrow> get_size t = length (labels_of t)"
  by (induction t) simp_all

section \<open>Properties of \<open>set_parents\<close>\<close>

lemma balanced_Node [simp]:
  "balanced (Node a p r s l rt par) =
     (real (get_size l) \<le> alpha * real s \<and> real (get_size rt) \<le> alpha * real s)"
  by (simp add: balanced_def)

lemma fix_parents_Null_iff [simp]: "fix_parents par t = Null \<longleftrightarrow> t = Null"
  by (cases t) simp_all

lemma labels_fix_parents [simp]: "labels_of (fix_parents par t) = labels_of t"
  by (induction t arbitrary: par) simp_all

lemma get_size_fix_parents [simp]: "get_size (fix_parents par t) = get_size t"
  by (cases t) simp_all

lemma update_rect_by_fix_parents [simp]:
  "update_rect_by rc (fix_parents par t) = update_rect_by rc t"
  by (cases t) simp_all

lemma n_rect_fix_parents [simp]: "n_rect (fix_parents par t) = n_rect t"
  by (cases t) simp_all

lemma sizes_ok_fix_parents [simp]: "sizes_ok (fix_parents par t) = sizes_ok t"
  by (induction t arbitrary: par) simp_all

lemma rects_ok_fix_parents [simp]: "rects_ok (fix_parents par t) = rects_ok t"
  by (induction t arbitrary: par) simp_all

lemma all_balanced_fix_parents [simp]: "all_balanced (fix_parents par t) = all_balanced t"
  by (induction t arbitrary: par) simp_all

lemma parents_ok_fix_parents [simp]: "parents_ok par (fix_parents par t)"
  by (induction t arbitrary: par) simp_all

lemma fix_parents_with_parent [simp]: "fix_parents par (with_parent t v) = fix_parents par t"
  by (cases t) simp_all

lemma set_parents_with_parent:
  "t \<noteq> Null \<Longrightarrow> set_parents (with_parent t par) = Inr (fix_parents par t)"
proof (induction t arbitrary: par)
  case Null
  then show ?case by simp
next
  case (Node a p r s l rt q)
  have l: "(if l \<noteq> Null then set_parents (with_parent l (Some a)) else Inr l)
      = Inr (fix_parents (Some a) l)"
    using Node.IH(1)[of "Some a"] by (cases "l = Null") simp_all
  have r: "(if rt \<noteq> Null then set_parents (with_parent rt (Some a)) else Inr rt)
      = Inr (fix_parents (Some a) rt)"
    using Node.IH(2)[of "Some a"] by (cases "rt = Null") simp_all
  show ?case by (simp only: with_parent.simps set_parents.simps l r fix_parents.simps sum.case)
qed

lemma with_parent_same: "t \<noteq> Null \<Longrightarrow> with_parent t (n_parent t) = t"
  by (cases t) simp_all

lemma set_parents_nonnull:
  "t \<noteq> Null \<Longrightarrow> set_parents t = Inr (fix_parents (n_parent t) t)"
  using set_parents_with_parent[of t "n_parent t"] by (simp add: with_parent_same)


section \<open>Properties of \<open>insert_node\<close>\<close>

text \<open>The tree that insert leaves behind.\<close>

lemma fst_insert_node_Null [simp]: "fst (insert_node a Null pt cx) = new_node a pt"
  by simp

lemma fst_insert_node_Node:
  "fst (insert_node a (Node ra rp rr rs l rt par) pt cx) =
     (if point_eq rp pt then Node ra rp rr rs l rt par
      else if less_pt pt rp cx then
        Node ra rp (update_rect_by (update_rect_by (Rect rp rp) (fst (insert_node a l pt (\<not> cx)))) rt)
          (1 + get_size (fst (insert_node a l pt (\<not> cx))) + get_size rt)
          (with_parent (fst (insert_node a l pt (\<not> cx))) (Some ra)) rt par
      else
        Node ra rp (update_rect_by (update_rect_by (Rect rp rp) l) (fst (insert_node a rt pt (\<not> cx))))
          (1 + get_size l + get_size (fst (insert_node a rt pt (\<not> cx))))
          l (with_parent (fst (insert_node a rt pt (\<not> cx))) (Some ra)) par)"
  by (simp add: Let_def split: prod.splits)

lemma insert_node_nonnull [simp]: "fst (insert_node a t pt cx) \<noteq> Null"
  by (cases t) (simp_all add: new_node_def fst_insert_node_Node del: insert_node.simps)

lemma insert_node_labels:
  "mset (labels_of (fst (insert_node a t pt cx))) =
     mset (labels_of t) + (if ps_contains t pt cx then {#} else {#(a, pt)#})"
  by (induction t arbitrary: cx)
     (simp_all add: new_node_def fst_insert_node_Node del: insert_node.simps)

lemma insert_node_sizes:
  "sizes_ok t \<Longrightarrow>
     sizes_ok (fst (insert_node a t pt cx)) \<and>
     get_size (fst (insert_node a t pt cx)) = get_size t + (if ps_contains t pt cx then 0 else 1)"
  by (induction t arbitrary: cx)
     (simp_all add: new_node_def fst_insert_node_Node del: insert_node.simps)

lemma insert_node_rects:
  "rects_ok t \<Longrightarrow> rects_ok (fst (insert_node a t pt cx))"
  by (induction t arbitrary: cx)
     (simp_all add: new_node_def fst_insert_node_Node del: insert_node.simps)

lemma insert_node_parent:
  "n_parent (fst (insert_node a t pt cx)) = (if t = Null then None else n_parent t)"
  by (cases t) (simp_all add: new_node_def fst_insert_node_Node del: insert_node.simps)

lemma parents_ok_with_parent: "parents_ok q t \<Longrightarrow> parents_ok par (with_parent t par)"
  by (cases t) simp_all

lemma insert_node_parents:
  "parents_ok par t \<Longrightarrow> parents_ok par (with_parent (fst (insert_node a t pt cx)) par)"
  by (induction t arbitrary: cx par)
     (simp_all add: new_node_def fst_insert_node_Node del: insert_node.simps)

text \<open>The slot that insert reports.\<close>

lemma get_slot_with_parent_nonnull:
  "get_slot path t \<noteq> Null \<Longrightarrow> get_slot path (with_parent t v) \<noteq> Null"
  by (cases t; cases path) (auto elim: get_slot.elims)

lemma insert_node_slot:
  "insert_node a t pt cx = (t', Some path, c) \<Longrightarrow> get_slot path t' \<noteq> Null"
proof (induction t arbitrary: cx t' path c)
  case Null
  then show ?case by simp
next
  case (Node ra rp rr rs l rt par)
  show ?case
  proof (cases "point_eq rp pt")
    case True
    then show ?thesis using Node.prems by simp
  next
    case False
    show ?thesis
    proof (cases "less_pt pt rp cx")
      case True
      obtain to br pc where i: "insert_node a l pt (\<not> cx) = (to, br, pc)"
        by (cases "insert_node a l pt (\<not> cx)") auto
      have nn: "to \<noteq> Null" using insert_node_nonnull[of a l pt "\<not> cx"] i by simp
      show ?thesis
      proof (cases path)
        case Nil
        then show ?thesis using Node.prems False True i nn
          by (auto simp: Let_def split: if_splits)
      next
        case (Cons d ds)
        then have "br = Some ds" and "d = L"
          using Node.prems False True i by (auto simp: Let_def split: if_splits)
        then have "get_slot ds to \<noteq> Null" using Node.IH(1)[OF i[unfolded \<open>br = Some ds\<close>]] by simp
        then have "get_slot ds (with_parent to (Some ra)) \<noteq> Null"
          by (rule get_slot_with_parent_nonnull)
        then show ?thesis using Node.prems False True i Cons \<open>d = L\<close>
          by (auto simp: Let_def split: if_splits)
      qed
    next
      case nl: False
      obtain to br pc where i: "insert_node a rt pt (\<not> cx) = (to, br, pc)"
        by (cases "insert_node a rt pt (\<not> cx)") auto
      have nn: "to \<noteq> Null" using insert_node_nonnull[of a rt pt "\<not> cx"] i by simp
      show ?thesis
      proof (cases path)
        case Nil
        then show ?thesis using Node.prems False nl i nn
          by (auto simp: Let_def split: if_splits)
      next
        case (Cons d ds)
        then have "br = Some ds" and "d = R"
          using Node.prems False nl i by (auto simp: Let_def split: if_splits)
        then have "get_slot ds to \<noteq> Null" using Node.IH(2)[OF i[unfolded \<open>br = Some ds\<close>]] by simp
        then have "get_slot ds (with_parent to (Some ra)) \<noteq> Null"
          by (rule get_slot_with_parent_nonnull)
        then show ?thesis using Node.prems False nl i Cons \<open>d = R\<close>
          by (auto simp: Let_def split: if_splits)
      qed
    qed
  qed
qed


section \<open>Rects as bounding boxes\<close>

lemma bbox_cong: "set ps = set qs \<Longrightarrow> bbox ps = bbox qs"
  by (simp add: bbox_def)

lemma bbox_single: "Rect p p = bbox [p]"
  by (simp add: bbox_def)

lemma update_rect_by_bbox:
  assumes "ps \<noteq> []" and "t \<noteq> Null" and "n_rect t = bbox qs" and "qs \<noteq> []"
  shows "update_rect_by (bbox ps) t = bbox (ps @ qs)"
proof -
  obtain a p r s l rt par where t: "t = Node a p r s l rt par" using assms(2) by (cases t) auto
  have r: "r = bbox qs" using assms(3) t by simp
  have fin: "finite (m_x ` set ps)" "finite (m_x ` set qs)" "finite (m_y ` set ps)" "finite (m_y ` set qs)"
    by simp_all
  have ne: "m_x ` set ps \<noteq> {}" "m_x ` set qs \<noteq> {}" "m_y ` set ps \<noteq> {}" "m_y ` set qs \<noteq> {}"
    using assms(1,4) by simp_all
  show ?thesis unfolding t update_rect_by.simps r
    by (simp add: bbox_def xmin_def ymin_def xmax_def ymax_def image_Un
        Min_Un[OF fin(1) ne(1) fin(2) ne(2)] Min_Un[OF fin(3) ne(3) fin(4) ne(4)]
        Max_Un[OF fin(1) ne(1) fin(2) ne(2)] Max_Un[OF fin(3) ne(3) fin(4) ne(4)])
qed

lemma points_of_Null [simp]: "points_of Null = []"
  by (simp add: points_of_def)

lemma points_of_Node [simp]:
  "points_of (Node a p r s l rt par) = points_of l @ p # points_of rt"
  by (simp add: points_of_def)

lemma points_of_empty_iff [simp]: "points_of t = [] \<longleftrightarrow> t = Null"
  by (cases t) simp_all

lemma rects_ok_bbox: "rects_ok t \<Longrightarrow> t \<noteq> Null \<Longrightarrow> n_rect t = bbox (points_of t)"
proof (induction t)
  case Null
  then show ?case by simp
next
  case (Node a p r s l rt par)
  have r: "r = update_rect_by (update_rect_by (Rect p p) l) rt" using Node.prems by simp
  have s1: "update_rect_by (Rect p p) l = bbox (p # points_of l)"
  proof (cases "l = Null")
    case True
    then show ?thesis by (simp add: bbox_single)
  next
    case False
    then have "n_rect l = bbox (points_of l)" using Node by simp
    then show ?thesis
      using update_rect_by_bbox[of "[p]" l "points_of l"] False by (simp add: bbox_single)
  qed
  have s2: "update_rect_by (bbox (p # points_of l)) rt = bbox (p # points_of l @ points_of rt)"
  proof (cases "rt = Null")
    case True
    then show ?thesis by simp
  next
    case False
    then have "n_rect rt = bbox (points_of rt)" using Node by simp
    then show ?thesis
      using update_rect_by_bbox[of "p # points_of l" rt "points_of rt"] False by simp
  qed
  have "bbox (p # points_of l @ points_of rt) = bbox (points_of l @ p # points_of rt)"
    by (rule bbox_cong) auto
  then show ?case using r s1 s2 by simp
qed

lemma rects_ok_same_rect:
  assumes "rects_ok t" and "rects_ok u" and "t \<noteq> Null" and "u \<noteq> Null"
    and "mset (labels_of t) = mset (labels_of u)"
  shows "n_rect t = n_rect u"
proof -
  have "image_mset snd (mset (labels_of t)) = image_mset snd (mset (labels_of u))"
    using assms(5) by simp
  then have "mset (points_of t) = mset (points_of u)"
    unfolding points_of_def by simp
  then have "set (points_of t) = set (points_of u)" by (rule mset_eq_setD)
  then have "bbox (points_of t) = bbox (points_of u)" by (rule bbox_cong)
  then show ?thesis using rects_ok_bbox[OF assms(1,3)] rects_ok_bbox[OF assms(2,4)] by simp
qed

lemma update_rect_by_same_rect:
  "t \<noteq> Null \<Longrightarrow> u \<noteq> Null \<Longrightarrow> n_rect t = n_rect u \<Longrightarrow> update_rect_by rc t = update_rect_by rc u"
  by (cases t; cases u) simp_all


section \<open>Slots of a tree\<close>

lemma set_slot_Null_iff:
  "(sub' = Null \<longleftrightarrow> get_slot path t = Null) \<Longrightarrow> (set_slot path t sub' = Null \<longleftrightarrow> t = Null)"
  by (cases path; cases t) (auto elim: set_slot.elims)

lemma set_slot_labels:
  "mset (labels_of sub') = mset (labels_of (get_slot path t)) \<Longrightarrow>
   mset (labels_of (set_slot path t sub')) = mset (labels_of t)"
  by (induction path t sub' rule: set_slot.induct) simp_all

lemma get_slot_sizes_ok: "sizes_ok t \<Longrightarrow> sizes_ok (get_slot path t)"
  by (induction path t rule: get_slot.induct) simp_all

lemma get_slot_rects_ok: "rects_ok t \<Longrightarrow> rects_ok (get_slot path t)"
  by (induction path t rule: get_slot.induct) simp_all

lemma parents_ok_n_parent: "parents_ok par t \<Longrightarrow> t \<noteq> Null \<Longrightarrow> n_parent t = par"
  by (cases t) simp_all

lemma get_slot_parents_ok:
  "parents_ok par t \<Longrightarrow> get_slot path t \<noteq> Null \<Longrightarrow>
   parents_ok (n_parent (get_slot path t)) (get_slot path t)"
  by (induction path t arbitrary: par rule: get_slot.induct)
     (auto simp: parents_ok_n_parent)

lemma set_slot_sizes:
  "sizes_ok t \<Longrightarrow> sizes_ok sub' \<Longrightarrow> get_size sub' = get_size (get_slot path t) \<Longrightarrow>
   sizes_ok (set_slot path t sub') \<and> get_size (set_slot path t sub') = get_size t"
  by (induction path t sub' rule: set_slot.induct) simp_all

lemma set_slot_rects:
  "rects_ok t \<Longrightarrow> rects_ok sub' \<Longrightarrow>
   (\<And>rc. update_rect_by rc sub' = update_rect_by rc (get_slot path t)) \<Longrightarrow>
   rects_ok (set_slot path t sub') \<and>
   (\<forall>rc. update_rect_by rc (set_slot path t sub') = update_rect_by rc t)"
  by (induction path t sub' rule: set_slot.induct) simp_all

lemma set_slot_parents:
  "parents_ok par t \<Longrightarrow> get_slot path t \<noteq> Null \<Longrightarrow>
   parents_ok (n_parent (get_slot path t)) sub' \<Longrightarrow> parents_ok par (set_slot path t sub')"
  by (induction path t sub' arbitrary: par rule: set_slot.induct)
     (auto simp: parents_ok_n_parent)


section \<open>Properties of \<open>put\<close>\<close>

lemma put_None:
  "insert_node a t pt True = (t', None, c) \<Longrightarrow> put a t pt = Inr t'"
  by (simp add: put_def)

lemma put_Some:
  assumes "insert_node a t pt True = (t', Some path, c)"
  shows "put a t pt =
    Inr (set_slot path t' (fix_parents (n_parent (get_slot path t'))
           (rebuild_tree (get_slot path t') c)))"
proof -
  have s: "get_slot path t' \<noteq> Null" using insert_node_slot[OF assms] .
  then have r: "rebuild_tree (get_slot path t') c \<noteq> Null" by (rule rebuild_tree_nonnull)
  show ?thesis
    using s r set_parents_with_parent[OF r, of "n_parent (get_slot path t')"] assms
    by (simp add: put_def Let_def)
qed

lemma insert_node_parents_root:
  assumes "parents_ok None t"
  shows "parents_ok None (fst (insert_node a t pt cx))"
proof -
  have "n_parent (fst (insert_node a t pt cx)) = None"
    using assms by (cases t) (simp_all add: insert_node_parent new_node_def del: insert_node.simps)
  then have "with_parent (fst (insert_node a t pt cx)) None = fst (insert_node a t pt cx)"
    using with_parent_same[of "fst (insert_node a t pt cx)"] by simp
  then show ?thesis using insert_node_parents[OF assms, of a pt cx] by simp
qed

lemma put_result:
  obtains t' where "put a t pt = Inr t'"
    and "mset (labels_of t') =
           mset (labels_of t) + (if ps_contains t pt True then {#} else {#(a, pt)#})"
    and "sizes_ok t \<Longrightarrow>
           sizes_ok t' \<and> get_size t' = get_size t + (if ps_contains t pt True then 0 else 1)"
    and "rects_ok t \<Longrightarrow> rects_ok t'"
    and "parents_ok None t \<Longrightarrow> parents_ok None t'"
proof -
  obtain t1 br c where i: "insert_node a t pt True = (t1, br, c)"
    by (cases "insert_node a t pt True") auto
  have t1: "t1 = fst (insert_node a t pt True)" using i by simp
  have lab1: "mset (labels_of t1) =
           mset (labels_of t) + (if ps_contains t pt True then {#} else {#(a, pt)#})"
    unfolding t1 by (rule insert_node_labels)
  have sz1: "sizes_ok t \<Longrightarrow>
           sizes_ok t1 \<and> get_size t1 = get_size t + (if ps_contains t pt True then 0 else 1)"
    unfolding t1 by (rule insert_node_sizes)
  have rc1: "rects_ok t \<Longrightarrow> rects_ok t1"
    unfolding t1 by (rule insert_node_rects)
  have pa1: "parents_ok None t \<Longrightarrow> parents_ok None t1"
    unfolding t1 by (rule insert_node_parents_root)
  show ?thesis
  proof (cases br)
    case None
    then have "put a t pt = Inr t1" using i put_None by simp
    then show ?thesis using that lab1 sz1 rc1 pa1 by blast
  next
    case (Some path)
    define sub where "sub = get_slot path t1"
    define rb where "rb = rebuild_tree sub c"
    define sub' where "sub' = fix_parents (n_parent sub) rb"
    define t' where "t' = set_slot path t1 sub'"
    have p: "put a t pt = Inr t'"
      using put_Some[OF i[unfolded Some]] by (simp add: t'_def sub'_def rb_def sub_def)
    have sn: "sub \<noteq> Null" unfolding sub_def using insert_node_slot[OF i[unfolded Some]] .
    have rn: "rb \<noteq> Null" unfolding rb_def using sn by (rule rebuild_tree_nonnull)
    have labs: "mset (labels_of sub') = mset (labels_of sub)"
      by (simp add: sub'_def rb_def rebuild_tree_labels)
    have lab: "mset (labels_of t') = mset (labels_of t1)"
      unfolding t'_def by (rule set_slot_labels) (simp add: labs sub_def[symmetric])
    have sz: "sizes_ok t' \<and> get_size t' = get_size t1" if "sizes_ok t1"
    proof -
      have "sizes_ok sub" unfolding sub_def using that by (rule get_slot_sizes_ok)
      then have "get_size sub = length (labels_of sub)" by (rule sizes_ok_get_size)
      then have "sizes_ok sub' \<and> get_size sub' = get_size (get_slot path t1)"
        using rebuild_tree_sizes[of sub c] by (simp add: sub'_def rb_def sub_def)
      then show ?thesis unfolding t'_def using set_slot_sizes[OF that, of sub' path] by simp
    qed
    have rc: "rects_ok t'" if "rects_ok t1"
    proof -
      have 1: "rects_ok sub" unfolding sub_def using that by (rule get_slot_rects_ok)
      have 2: "rects_ok rb" unfolding rb_def by (rule rebuild_tree_rects)
      have "mset (labels_of rb) = mset (labels_of sub)" by (simp add: rb_def rebuild_tree_labels)
      then have "n_rect rb = n_rect sub" using rects_ok_same_rect[OF 2 1 rn sn] by simp
      then have "n_rect sub' = n_rect sub" by (simp add: sub'_def)
      moreover have "sub' \<noteq> Null" using rn by (simp add: sub'_def)
      ultimately have "\<And>rc. update_rect_by rc sub' = update_rect_by rc (get_slot path t1)"
        using update_rect_by_same_rect[of sub' sub] sn by (simp add: sub_def)
      moreover have "rects_ok sub'" using 2 by (simp add: sub'_def)
      ultimately show ?thesis unfolding t'_def using set_slot_rects[OF that, of sub' path] by simp
    qed
    have pa: "parents_ok None t'" if "parents_ok None t1"
      unfolding t'_def
      by (rule set_slot_parents[OF that]) (use sn in \<open>simp_all add: sub'_def sub_def\<close>)
    show ?thesis
    proof (rule that[OF p])
      show "mset (labels_of t') =
           mset (labels_of t) + (if ps_contains t pt True then {#} else {#(a, pt)#})"
        using lab lab1 by simp
      show "sizes_ok t' \<and> get_size t' = get_size t + (if ps_contains t pt True then 0 else 1)"
        if "sizes_ok t" using sz sz1 that by simp
      show "rects_ok t'" if "rects_ok t" using rc rc1 that by simp
      show "parents_ok None t'" if "parents_ok None t" using pa pa1 that by simp
    qed
  qed
qed


lemma puts_invariants:
  assumes "sizes_ok t" and "rects_ok t" and "parents_ok None t"
  shows "\<exists>t'. puts alloc i t pts = Inr t' \<and> sizes_ok t' \<and> rects_ok t' \<and> parents_ok None t'"
  using assms
proof (induction pts arbitrary: t i)
  case Nil
  then show ?case by simp
next
  case (Cons pt pts)
  obtain t1 where p: "put (alloc i) t pt = Inr t1"
    and "sizes_ok t \<Longrightarrow> sizes_ok t1 \<and> get_size t1 = get_size t + (if ps_contains t pt True then 0 else 1)"
    and "rects_ok t \<Longrightarrow> rects_ok t1" and "parents_ok None t \<Longrightarrow> parents_ok None t1"
    by (rule put_result[of "alloc i" t pt]) blast
  then have "sizes_ok t1" "rects_ok t1" "parents_ok None t1" using Cons.prems by simp_all
  from Cons.IH[OF this, of "Suc i"] show ?case using p by simp
qed


section \<open>Weight balance\<close>

lemma balanced_outside_with_parent [simp]:
  "balanced_outside path (with_parent t v) = balanced_outside path t"
  by (cases "(path, t)" rule: balanced_outside.cases) simp_all

lemma insert_node_balanced:
  "all_balanced t \<Longrightarrow> insert_node a t pt cx = (t1, br, c) \<Longrightarrow>
   (case br of None \<Rightarrow> all_balanced t1 | Some path \<Rightarrow> balanced_outside path t1)"
proof (induction t arbitrary: cx t1 br c)
  case Null
  then show ?case by (auto simp: new_node_def alpha_def)
next
  case (Node ra rp rr rs l rt par)
  show ?case
  proof (cases "point_eq rp pt")
    case True
    then show ?thesis using Node.prems by auto
  next
    case False
    show ?thesis
    proof (cases "less_pt pt rp cx")
      case True
      obtain to br0 pc where i: "insert_node a l pt (\<not> cx) = (to, br0, pc)"
        by (cases "insert_node a l pt (\<not> cx)") auto
      have ih: "case br0 of None \<Rightarrow> all_balanced to | Some path \<Rightarrow> balanced_outside path to"
        using Node.IH(1)[OF _ i] Node.prems(1) by simp
      have rt: "all_balanced rt" using Node.prems(1) by simp
      show ?thesis using Node.prems(2) False True i ih rt
        by (auto simp: Let_def split: if_splits option.splits)
    next
      case nl: False
      obtain to br0 pc where i: "insert_node a rt pt (\<not> cx) = (to, br0, pc)"
        by (cases "insert_node a rt pt (\<not> cx)") auto
      have ih: "case br0 of None \<Rightarrow> all_balanced to | Some path \<Rightarrow> balanced_outside path to"
        using Node.IH(2)[OF _ i] Node.prems(1) by simp
      have l: "all_balanced l" using Node.prems(1) by simp
      show ?thesis using Node.prems(2) False nl i ih l
        by (auto simp: Let_def split: if_splits option.splits)
    qed
  qed
qed

lemma get_size_set_slot:
  "get_size sub' = get_size (get_slot path t) \<Longrightarrow> get_size (set_slot path t sub') = get_size t"
  by (cases "(path, t, sub')" rule: set_slot.cases) simp_all

lemma set_slot_balanced:
  "balanced_outside path t \<Longrightarrow> all_balanced sub' \<Longrightarrow>
   get_size sub' = get_size (get_slot path t) \<Longrightarrow> all_balanced (set_slot path t sub')"
  by (induction path t sub' rule: set_slot.induct) (simp_all add: get_size_set_slot)

lemma sorted_distinct_nth_less:
  fixes ks :: "real list"
  assumes "sorted ks" and "distinct ks" and "Suc k < length ks"
  shows "ks ! k < ks ! Suc k"
proof -
  have "sorted_wrt (<) ks" using assms(1,2) by (simp add: strict_sorted_iff)
  then show ?thesis using assms(3) by (simp add: sorted_wrt_nth_less)
qed

lemma shift_median_distinct:
  assumes "sorted (map (axis_key cx) srt)" and "distinct (map (axis_key cx) srt)"
    and "k < length srt"
  shows "shift_median cx srt k = k"
proof (cases k)
  case 0
  then show ?thesis by simp
next
  case (Suc j)
  have "map (axis_key cx) srt ! j < map (axis_key cx) srt ! Suc j"
    using sorted_distinct_nth_less[OF assms(1,2)] assms(3) Suc by simp
  then have "axis_key cx (srt ! j) < axis_key cx (srt ! Suc j)"
    using assms(3) Suc by simp
  then have "less_node (srt ! j) (srt ! Suc j) cx"
    by (simp add: less_node_def less_pt_def axis_key_def split: if_splits)
  then show ?thesis using Suc by simp
qed

lemma half_balanced:
  assumes "n \<noteq> 0" and "m = n div 2"
  shows "real m \<le> alpha * real (1 + m + (n - Suc m)) \<and>
         real (n - Suc m) \<le> alpha * real (1 + m + (n - Suc m))"
proof -
  have t: "1 + m + (n - Suc m) = n" using assms by simp
  have a: "2 * m \<le> n" using assms by simp
  have b: "2 * (n - Suc m) \<le> n" using assms by simp
  have "real (2 * m) \<le> real n" using a by (simp only: of_nat_le_iff)
  moreover have "real (2 * (n - Suc m)) \<le> real n" using b by (simp only: of_nat_le_iff)
  ultimately show ?thesis unfolding t alpha_def by simp
qed


lemma build_tree_balanced:
  assumes "Null \<notin> set ns"
    and "distinct (map (axis_key True) ns)" and "distinct (map (axis_key False) ns)"
  shows "all_balanced (build_tree ns cx)"
  using assms
proof (induction ns cx rule: build_tree_induct)
  case (Nil cx)
  show ?case by simp
next
  case (Step ns cx srt m a p r s l rt par)
  have len: "length srt = length ns" and st: "set srt = set ns" and ms: "mset srt = mset ns"
    using Step(3) by simp_all
  have d: "distinct (map (axis_key b) srt)" for b
  proof -
    have "mset (map (axis_key b) srt) = mset (map (axis_key b) ns)" using ms by simp
    then have "distinct (map (axis_key b) srt) = distinct (map (axis_key b) ns)"
      by (rule mset_eq_imp_distinct_iff)
    then show ?thesis using Step.prems by (cases b) simp_all
  qed
  have so: "sorted (map (axis_key cx) srt)" unfolding Step(3) by (rule sorted_sort_key)
  have half: "length srt div 2 < length srt" using Step(1) len by simp
  have m: "m = length ns div 2"
    using shift_median_distinct[OF so d half] Step(4) len by simp
  have n1: "Null \<notin> set (take m srt)" using Step(2) st by (auto dest: in_set_takeD)
  have n2: "Null \<notin> set (drop (Suc m) srt)" using Step(2) st by (auto dest: in_set_dropD)
  have d1: "distinct (map (axis_key b) (take m srt))" for b
    using distinct_take[OF d[of b], of m] by (simp add: take_map)
  have d2: "distinct (map (axis_key b) (drop (Suc m) srt))" for b
    using distinct_drop[OF d[of b], of "Suc m"] by (simp add: drop_map)
  have b1: "all_balanced (build_tree (take m srt) (\<not> cx))" using Step.IH(1) d1 by simp
  have b2: "all_balanced (build_tree (drop (Suc m) srt) (\<not> cx))" using Step.IH(2) d2 by simp
  have s1: "get_size (build_tree (take m srt) (\<not> cx)) = m"
    using build_tree_sizes[OF n1, of "\<not> cx"] Step(5) len by simp
  have s2: "get_size (build_tree (drop (Suc m) srt) (\<not> cx)) = length ns - Suc m"
    using build_tree_sizes[OF n2, of "\<not> cx"] len by simp
  have "length ns \<noteq> 0" using Step(1) by simp
  from half_balanced[OF this m] show ?case
    unfolding Step(7) using b1 b2 s1 s2 by simp
qed

lemma move_to_vector_points: "map n_point (move_to_vector t []) = points_of t"
proof -
  have "map snd (map label (move_to_vector t [])) = map snd (labels_of t)"
    by (simp only: move_to_vector_labels) simp
  then show ?thesis by (simp add: points_of_def label_def comp_def)
qed

lemma rebuild_tree_balanced:
  assumes "distinct (map m_x (points_of t))" and "distinct (map m_y (points_of t))"
  shows "all_balanced (rebuild_tree t cx)"
proof -
  have nn: "Null \<notin> set (move_to_vector t [])" by (rule move_to_vector_nonnull) simp
  have k: "map (axis_key b) ns = map (if b then m_x else m_y) (map n_point ns)" for b ns
    by (simp add: axis_key_def comp_def)
  have "distinct (map (axis_key True) (move_to_vector t []))"
    unfolding k move_to_vector_points using assms(1) by simp
  moreover have "distinct (map (axis_key False) (move_to_vector t []))"
    unfolding k move_to_vector_points using assms(2) by simp
  ultimately show ?thesis unfolding rebuild_tree_def using build_tree_balanced[OF nn] by blast
qed

lemma get_slot_labels:
  "\<exists>pre post. labels_of t = pre @ labels_of (get_slot path t) @ post"
proof (induction path t rule: get_slot.induct)
  case (1 t)
  have "labels_of t = [] @ labels_of (get_slot [] t) @ []" by simp
  then show ?case by blast
next
  case (2 d ds)
  have "labels_of Null = [] @ labels_of (get_slot (d # ds) Null) @ []" by simp
  then show ?case by blast
next
  case (3 ds a p r s l rt par)
  then obtain pre post where "labels_of l = pre @ labels_of (get_slot ds l) @ post" by blast
  then have "labels_of (Node a p r s l rt par) =
      pre @ labels_of (get_slot (L # ds) (Node a p r s l rt par)) @ (post @ (a, p) # labels_of rt)"
    by simp
  then show ?case by blast
next
  case (4 ds a p r s l rt par)
  then obtain pre post where "labels_of rt = pre @ labels_of (get_slot ds rt) @ post" by blast
  then have "labels_of (Node a p r s l rt par) =
      (labels_of l @ (a, p) # pre) @ labels_of (get_slot (R # ds) (Node a p r s l rt par)) @ post"
    by simp
  then show ?case by blast
qed

lemma get_slot_distinct:
  assumes "distinct (map f (points_of t))"
  shows "distinct (map f (points_of (get_slot path t)))"
proof -
  obtain pre post where "labels_of t = pre @ labels_of (get_slot path t) @ post"
    using get_slot_labels by blast
  then have "map f (points_of t) =
      map f (map snd pre) @ map f (points_of (get_slot path t)) @ map f (map snd post)"
    by (simp add: points_of_def)
  then show ?thesis using assms by simp
qed


lemma distinct_map_mset_eq:
  "mset xs = mset ys \<Longrightarrow> distinct (map f ys) \<Longrightarrow> distinct (map f xs)"
proof -
  assume a: "mset xs = mset ys" and d: "distinct (map f ys)"
  have "mset (map f xs) = mset (map f ys)" using a by simp
  then show ?thesis using d mset_eq_imp_distinct_iff by blast
qed

lemma insert_node_distinct:
  assumes "distinct (map f (pt # points_of t))"
  shows "distinct (map f (points_of (fst (insert_node a t pt cx))))"
proof -
  have "image_mset snd (mset (labels_of (fst (insert_node a t pt cx)))) =
      image_mset snd (mset (labels_of t) + (if ps_contains t pt cx then {#} else {#(a, pt)#}))"
    by (simp only: insert_node_labels)
  then have m: "mset (points_of (fst (insert_node a t pt cx))) =
      mset (points_of t) + (if ps_contains t pt cx then {#} else {#pt#})"
    by (simp add: points_of_def)
  show ?thesis
  proof (cases "ps_contains t pt cx")
    case True
    then have "mset (points_of (fst (insert_node a t pt cx))) = mset (points_of t)"
      using m by simp
    moreover have "distinct (map f (points_of t))" using assms by simp
    ultimately show ?thesis by (rule distinct_map_mset_eq)
  next
    case False
    then have "mset (points_of (fst (insert_node a t pt cx))) = mset (pt # points_of t)"
      using m by simp
    then show ?thesis using assms by (rule distinct_map_mset_eq)
  qed
qed

lemma put_balanced:
  assumes "all_balanced t" and "sizes_ok t"
    and "distinct (map m_x (pt # points_of t))" and "distinct (map m_y (pt # points_of t))"
    and "put a t pt = Inr t'"
  shows "all_balanced t'"
proof -
  obtain t1 br c where i: "insert_node a t pt True = (t1, br, c)"
    by (cases "insert_node a t pt True") auto
  have t1: "t1 = fst (insert_node a t pt True)" using i by simp
  have b1: "case br of None \<Rightarrow> all_balanced t1 | Some path \<Rightarrow> balanced_outside path t1"
    using insert_node_balanced[OF assms(1) i] .
  show ?thesis
  proof (cases br)
    case None
    then have "put a t pt = Inr t1" using i put_None by simp
    then show ?thesis using assms(5) b1 None by simp
  next
    case (Some path)
    define sub where "sub = get_slot path t1"
    define rb where "rb = rebuild_tree sub c"
    have p: "put a t pt = Inr (set_slot path t1 (fix_parents (n_parent sub) rb))"
      using put_Some[OF i[unfolded Some]] by (simp add: rb_def sub_def)
    have s1: "sizes_ok t1" unfolding t1 using insert_node_sizes[OF assms(2)] by simp
    then have "sizes_ok sub" unfolding sub_def by (rule get_slot_sizes_ok)
    then have "get_size sub = length (labels_of sub)" by (rule sizes_ok_get_size)
    then have sz: "get_size (fix_parents (n_parent sub) rb) = get_size (get_slot path t1)"
      using rebuild_tree_sizes[of sub c] by (simp add: rb_def sub_def)
    have "distinct (map m_x (points_of t1))"
      unfolding t1 using assms(3) by (rule insert_node_distinct)
    then have dx: "distinct (map m_x (points_of sub))"
      unfolding sub_def by (rule get_slot_distinct)
    have "distinct (map m_y (points_of t1))"
      unfolding t1 using assms(4) by (rule insert_node_distinct)
    then have dy: "distinct (map m_y (points_of sub))"
      unfolding sub_def by (rule get_slot_distinct)
    have "all_balanced rb" unfolding rb_def using dx dy by (rule rebuild_tree_balanced)
    then have "all_balanced (fix_parents (n_parent sub) rb)" by simp
    moreover have "balanced_outside path t1" using b1 Some by simp
    ultimately have "all_balanced (set_slot path t1 (fix_parents (n_parent sub) rb))"
      using sz by (intro set_slot_balanced)
    then show ?thesis using p assms(5) by simp
  qed
qed


section \<open>The in-order cursor on a well-formed node graph\<close>

lemma addrs_of_Null [simp]: "addrs_of Null = []"
  by (simp add: addrs_of_def)

lemma addrs_of_Node [simp]:
  "addrs_of (Node a p r s l rt par) = addrs_of l @ a # addrs_of rt"
  by (simp add: addrs_of_def)

lemma node_at_notin: "n \<notin> set (addrs_of t) \<Longrightarrow> node_at t n = Null"
  by (induction t) simp_all

lemma subtrees_nonnull: "S \<in> subtrees t \<Longrightarrow> S \<noteq> Null"
  by (induction t) auto

lemma subtrees_addr: "S \<in> subtrees t \<Longrightarrow> n_addr S \<in> set (addrs_of t)"
  by (induction t) auto

lemma subtrees_self: "t \<noteq> Null \<Longrightarrow> t \<in> subtrees t"
  by (cases t) simp_all

lemma subtrees_trans: "S \<in> subtrees t \<Longrightarrow> U \<in> subtrees S \<Longrightarrow> U \<in> subtrees t"
  by (induction t) auto

lemma subtrees_left:
  "Node a p r s l rt par \<in> subtrees t \<Longrightarrow> l \<noteq> Null \<Longrightarrow> l \<in> subtrees t"
  using subtrees_trans[of "Node a p r s l rt par" t l] by (simp add: subtrees_self)

lemma subtrees_right:
  "Node a p r s l rt par \<in> subtrees t \<Longrightarrow> rt \<noteq> Null \<Longrightarrow> rt \<in> subtrees t"
  using subtrees_trans[of "Node a p r s l rt par" t rt] by (simp add: subtrees_self)

lemma node_at_subtree:
  "distinct (addrs_of t) \<Longrightarrow> S \<in> subtrees t \<Longrightarrow> node_at t (n_addr S) = S"
proof (induction t)
  case Null
  then show ?case by simp
next
  case (Node a p r s l rt par)
  from Node.prems(2) consider "S = Node a p r s l rt par" | "S \<in> subtrees l" | "S \<in> subtrees rt"
    by auto
  then show ?case
  proof cases
    case 1
    then show ?thesis by simp
  next
    case 2
    then have m: "n_addr S \<in> set (addrs_of l)" by (rule subtrees_addr)
    then have "n_addr S \<noteq> a" using Node.prems(1) by auto
    moreover have "node_at l (n_addr S) = S" using Node.IH(1) Node.prems(1) 2 by simp
    moreover have "S \<noteq> Null" using 2 by (rule subtrees_nonnull)
    ultimately show ?thesis by simp
  next
    case 3
    then have m: "n_addr S \<in> set (addrs_of rt)" by (rule subtrees_addr)
    then have "n_addr S \<noteq> a" and "n_addr S \<notin> set (addrs_of l)" using Node.prems(1) by auto
    moreover have "node_at rt (n_addr S) = S" using Node.IH(2) Node.prems(1) 3 by simp
    ultimately show ?thesis by (simp add: node_at_notin)
  qed
qed

lemma subtrees_parents_ok:
  "parents_ok q t \<Longrightarrow> Node a p r s l rt par \<in> subtrees t \<Longrightarrow>
   parents_ok (Some a) l \<and> parents_ok (Some a) rt"
  by (induction t arbitrary: q) auto

lemma subtrees_distinct:
  "distinct (addrs_of t) \<Longrightarrow> S \<in> subtrees t \<Longrightarrow> distinct (addrs_of S)"
  by (induction t) auto

lemma climb_left:
  assumes "distinct (addrs_of t)" and "parents_ok q t"
    and "Node a p r s l rt par \<in> subtrees t" and "l \<noteq> Null"
  shows "climb t (n_addr l) = Some (Inr (Some a))"
proof -
  obtain la lp lr ls ll lrt lpar where l: "l = Node la lp lr ls ll lrt lpar"
    using assms(4) by (cases l) auto
  have "parents_ok (Some a) l" using subtrees_parents_ok[OF assms(2,3)] by simp
  then have lpar: "lpar = Some a" using l by simp
  have 1: "node_at t la = Node la lp lr ls ll lrt (Some a)"
    using node_at_subtree[OF assms(1) subtrees_left[OF assms(3,4)]] l lpar by simp
  have 2: "node_at t a = Node a p r s l rt par"
    using node_at_subtree[OF assms(1,3)] by simp
  show ?thesis by (subst climb.simps) (simp add: 1 2 l)
qed

lemma climb_right:
  assumes "distinct (addrs_of t)" and "parents_ok q t"
    and "Node a p r s l rt par \<in> subtrees t" and "rt \<noteq> Null"
  shows "climb t (n_addr rt) = climb t a"
proof -
  obtain ra rp rr rs rl rrt rpar where r: "rt = Node ra rp rr rs rl rrt rpar"
    using assms(4) by (cases rt) auto
  have "parents_ok (Some a) rt" using subtrees_parents_ok[OF assms(2,3)] by simp
  then have rpar: "rpar = Some a" using r by simp
  have 1: "node_at t ra = Node ra rp rr rs rl rrt (Some a)"
    using node_at_subtree[OF assms(1) subtrees_right[OF assms(3,4)]] r rpar by simp
  have 2: "node_at t a = Node a p r s l rt par"
    using node_at_subtree[OF assms(1,3)] by simp
  have d: "distinct (addrs_of (Node a p r s l rt par))"
    using subtrees_distinct[OF assms(1,3)] .
  have 3: "l \<noteq> Null \<Longrightarrow> n_addr l \<noteq> ra"
  proof -
    assume "l \<noteq> Null"
    then have "n_addr l \<in> set (addrs_of l)" using subtrees_addr[OF subtrees_self] by simp
    then show ?thesis using d r by auto
  qed
  have 4: "\<not> (l \<noteq> Null \<and> n_addr l = ra)" using 3 by blast
  show ?thesis by (subst climb.simps) (simp add: 1 2 4 r)
qed

lemma climb_root:
  assumes "parents_ok None t" and "t \<noteq> Null"
  shows "climb t (n_addr t) = Some (Inr None)"
proof -
  obtain a p r s l rt par where t: "t = Node a p r s l rt par" using assms(2) by (cases t) auto
  then have "par = None" using assms(1) by simp
  then show ?thesis unfolding t by (subst climb.simps) simp
qed

lemma begin_node_Node: "t \<noteq> Null \<Longrightarrow> \<exists>n. begin_node t = Some n"
  by (induction t) auto

lemma traverse_None: "traverse t None acc = Some (Inr acc)"
  by (subst traverse.simps) simp

lemma traverse_subtree:
  assumes "distinct (addrs_of t)" and "parents_ok q t"
  shows "S \<in> subtrees t \<Longrightarrow> climb t (n_addr S) = Some (Inr x) \<Longrightarrow>
         traverse t (begin_node S) acc = traverse t x (acc @ points_of S)"
proof (induction S arbitrary: acc x)
  case Null
  then show ?case using subtrees_nonnull by blast
next
  case (Node a p r s l rt par)
  have at: "node_at t a = Node a p r s l rt par"
    using node_at_subtree[OF assms(1) Node.prems(1)] by simp
  have nx: "next_node t (Some a) = (if rt \<noteq> Null then Some (Inr (begin_node rt)) else Some (Inr x))"
    using Node.prems(2) by (simp add: next_node_def at)
  have here: "traverse t (Some a) acc' = traverse t x (acc' @ p # points_of rt)" for acc'
  proof (cases "rt = Null")
    case True
    show ?thesis by (subst traverse.simps) (simp add: at nx True)
  next
    case False
    have "climb t (n_addr rt) = Some (Inr x)"
      using climb_right[OF assms Node.prems(1) False] Node.prems(2) by simp
    then have "traverse t (begin_node rt) (acc' @ [p]) = traverse t x ((acc' @ [p]) @ points_of rt)"
      using Node.IH(2)[OF subtrees_right[OF Node.prems(1) False]] by blast
    then show ?thesis by (subst traverse.simps) (simp add: at nx False)
  qed
  show ?case
  proof (cases "l = Null")
    case True
    then show ?thesis using here[of acc] by simp
  next
    case False
    have "climb t (n_addr l) = Some (Inr (Some a))"
      using climb_left[OF assms Node.prems(1) False] .
    then have "traverse t (begin_node l) acc = traverse t (Some a) (acc @ points_of l)"
      using Node.IH(1)[OF subtrees_left[OF Node.prems(1) False]] by blast
    then show ?thesis using here[of "acc @ points_of l"] False by simp
  qed
qed

lemma traversal_wf: "wf_tree t \<Longrightarrow> traversal t = Some (Inr (points_of t))"
proof (cases "t = Null")
  case True
  then show ?thesis by (simp add: traversal_def traverse_None)
next
  case False
  assume "wf_tree t"
  then have d: "distinct (addrs_of t)" and p: "parents_ok None t" by (simp_all add: wf_tree_def)
  have "traverse t (begin_node t) [] = traverse t None ([] @ points_of t)"
    using traverse_subtree[OF d p subtrees_self[OF False] climb_root[OF p False]] .
  then show ?thesis by (simp add: traversal_def traverse_None)
qed


lemma put_wf:
  assumes "wf_tree t" and "a \<notin> set (addrs_of t)" and "put a t pt = Inr t'"
  shows "wf_tree t' \<and> set (addrs_of t') \<subseteq> insert a (set (addrs_of t))"
proof -
  obtain u where p: "put a t pt = Inr u"
    and l: "mset (labels_of u) =
           mset (labels_of t) + (if ps_contains t pt True then {#} else {#(a, pt)#})"
    and pa: "parents_ok None t \<Longrightarrow> parents_ok None u"
    by (rule put_result[of a t pt]) blast
  have u: "u = t'" using p assms(3) by simp
  have "image_mset fst (mset (labels_of u)) =
      image_mset fst (mset (labels_of t) + (if ps_contains t pt True then {#} else {#(a, pt)#}))"
    using l by simp
  then have m: "mset (addrs_of u) = mset (addrs_of t) + (if ps_contains t pt True then {#} else {#a#})"
    by (simp add: addrs_of_def)
  have d: "distinct (addrs_of t)" using assms(1) by (simp add: wf_tree_def)
  have "distinct (addrs_of u) \<and> set (addrs_of u) \<subseteq> insert a (set (addrs_of t))"
  proof (cases "ps_contains t pt True")
    case True
    then have e: "mset (addrs_of u) = mset (addrs_of t)" using m by simp
    then have "distinct (addrs_of u)" using d mset_eq_imp_distinct_iff by blast
    moreover have "set (addrs_of u) = set (addrs_of t)" using e by (rule mset_eq_setD)
    ultimately show ?thesis by auto
  next
    case False
    then have e: "mset (addrs_of u) = mset (a # addrs_of t)" using m by simp
    have "distinct (a # addrs_of t)" using d assms(2) by simp
    then have "distinct (addrs_of u)" using e mset_eq_imp_distinct_iff by blast
    moreover have "set (addrs_of u) = set (a # addrs_of t)" using e by (rule mset_eq_setD)
    ultimately show ?thesis by auto
  qed
  moreover have "parents_ok None u" using pa assms(1) by (simp add: wf_tree_def)
  ultimately show ?thesis unfolding u by (simp add: wf_tree_def)
qed

lemma put_points:
  assumes "put a t pt = Inr t'"
  shows "set (points_of t) \<subseteq> set (points_of t') \<and> set (points_of t') \<subseteq> insert pt (set (points_of t))"
proof -
  obtain u where p: "put a t pt = Inr u"
    and l: "mset (labels_of u) =
           mset (labels_of t) + (if ps_contains t pt True then {#} else {#(a, pt)#})"
    by (rule put_result[of a t pt]) blast
  have u: "u = t'" using p assms by simp
  have "image_mset snd (mset (labels_of u)) =
      image_mset snd (mset (labels_of t) + (if ps_contains t pt True then {#} else {#(a, pt)#}))"
    using l by simp
  then have m: "mset (points_of u) = mset (points_of t) + (if ps_contains t pt True then {#} else {#pt#})"
    by (simp add: points_of_def)
  have "set_mset (mset (points_of u)) =
      set_mset (mset (points_of t) + (if ps_contains t pt True then {#} else {#pt#}))"
    using m by simp
  then show ?thesis unfolding u by (auto split: if_splits)
qed

lemma put_total: "\<exists>t'. put a t pt = Inr t'"
  by (rule put_result[of a t pt]) blast

lemma puts_wf:
  assumes "inj alloc" and "wf_tree t" and "set (addrs_of t) \<subseteq> alloc ` {..<i}"
  shows "\<exists>t'. puts alloc i t pts = Inr t' \<and> wf_tree t' \<and>
           set (addrs_of t') \<subseteq> alloc ` {..<i + length pts}"
  using assms(2,3)
proof (induction pts arbitrary: t i)
  case Nil
  then show ?case by simp
next
  case (Cons pt pts)
  obtain t1 where p: "put (alloc i) t pt = Inr t1" using put_total by blast
  have fresh: "alloc i \<notin> set (addrs_of t)"
  proof
    assume "alloc i \<in> set (addrs_of t)"
    then obtain j where "j < i" "alloc i = alloc j" using Cons.prems(2) by auto
    then show False using assms(1) by (auto dest: injD)
  qed
  have w: "wf_tree t1" and s: "set (addrs_of t1) \<subseteq> insert (alloc i) (set (addrs_of t))"
    using put_wf[OF Cons.prems(1) fresh p] by simp_all
  have "set (addrs_of t1) \<subseteq> alloc ` {..<Suc i}"
    using s Cons.prems(2) by (auto simp: lessThan_Suc)
  from Cons.IH[OF w this] show ?case using p by simp
qed


section \<open>The concrete scenario\<close>

lemma scenario_puts:
  "puts (\<lambda>i. i) 0 Null [Point 0 0, Point 1 1, Point 2 2, Point 0 2, Point 2 0] = Inr scenario_tree"
  by code_simp

lemma scenario_begin: "begin_node scenario_tree = Some 0"
  by code_simp

lemma scenario_next:
  "next_node scenario_tree (Some 0) = Some (Inr (Some 3))"
  "next_node scenario_tree (Some 3) = Some (Inr (Some 1))"
  "next_node scenario_tree (Some 1) = Some (Inr (Some 4))"
  "next_node scenario_tree (Some 4) = Some (Inr (Some 2))"
  "next_node scenario_tree (Some 2) = Some (Inr None)"
  by code_simp+

lemma scenario_node_at:
  "node_at scenario_tree 0 = Node 0 (Point 0 0) (Rect (Point 0 0) (Point 0 2)) 2 Null
          (Node 3 (Point 0 2) (Rect (Point 0 2) (Point 0 2)) 1 Null Null (Some 0)) (Some 1)"
  "node_at scenario_tree 1 = scenario_tree"
  "node_at scenario_tree 2 = Node 2 (Point 2 2) (Rect (Point 2 0) (Point 2 2)) 2
          (Node 4 (Point 2 0) (Rect (Point 2 0) (Point 2 0)) 1 Null Null (Some 2)) Null (Some 1)"
  "node_at scenario_tree 3 = Node 3 (Point 0 2) (Rect (Point 0 2) (Point 0 2)) 1 Null Null (Some 0)"
  "node_at scenario_tree 4 = Node 4 (Point 2 0) (Rect (Point 2 0) (Point 2 0)) 1 Null Null (Some 2)"
  by code_simp+

lemma scenario_point_at:
  "n_point (node_at scenario_tree 0) = Point 0 0"
  "n_point (node_at scenario_tree 1) = Point 1 1"
  "n_point (node_at scenario_tree 2) = Point 2 2"
  "n_point (node_at scenario_tree 3) = Point 0 2"
  "n_point (node_at scenario_tree 4) = Point 2 0"
  by code_simp+

lemma scenario_traversal:
  "traversal scenario_tree = Some (Inr [Point 0 0, Point 0 2, Point 1 1, Point 2 0, Point 2 2])"
  by code_simp

lemma scenario_range:
  "range_query scenario_tree (Rect (Point 0 0) (Point 1 1)) = (ListIt [1, 0], ListIt [])"
  by code_simp

lemma scenario_range_drain:
  "drain scenario_tree (ListIt [1, 0]) (ListIt []) [] = Some (Inr [Point 0 0, Point 1 1])"
  by code_simp

lemma scenario_seed:
  "seed_heap scenario_tree 3 (begin_node scenario_tree) [] = Some (Inr ([0, 3, 1], Some 4))"
  by code_simp


lemma scenario_distances:
  "distance (Point 1 1) (Point 1 1) = 0"
  "distance (Point 1 1) (Point 0 0) = sqrt 2"
  "distance (Point 1 1) (Point 2 2) = sqrt 2"
  "distance (Point 1 1) (Point 0 2) = sqrt 2"
  "distance (Point 1 1) (Point 2 0) = sqrt 2"
  by (simp_all add: distance_def sqr_def)

lemma scenario_less_dist:
  "less_dist scenario_tree (Point 1 1) 1 3 = True"
  "less_dist scenario_tree (Point 1 1) 3 0 = False"
  "less_dist scenario_tree (Point 1 1) 1 0 = True"
  "less_dist scenario_tree (Point 1 1) 4 3 = False"
  "less_dist scenario_tree (Point 1 1) 2 3 = False"
  by (simp_all add: less_dist_def scenario_point_at scenario_distances del: One_nat_def)

lemma scenario_make_heap:
  "make_heap (less_dist scenario_tree (Point 1 1)) [0, 3, 1] = [3, 0, 1]"
  by (simp add: make_heap_def scenario_less_dist del: One_nat_def)

lemma scenario_scan:
  "scan_rest scenario_tree (Point 1 1) (Some 4) [3, 0, 1] = Some (Inr [3, 0, 1])"
proof -
  have "scan_rest scenario_tree (Point 1 1) (Some 4) [3, 0, 1] =
      scan_rest scenario_tree (Point 1 1) (Some 2) [3, 0, 1]"
    by (subst scan_rest.simps) (simp add: scenario_less_dist scenario_next del: One_nat_def)
  also have "\<dots> = scan_rest scenario_tree (Point 1 1) None [3, 0, 1]"
    by (subst scan_rest.simps) (simp add: scenario_less_dist scenario_next del: One_nat_def)
  also have "\<dots> = Some (Inr [3, 0, 1])"
    by (subst scan_rest.simps) simp
  finally show ?thesis .
qed

lemma scenario_nearest_k:
  "nearest_k scenario_tree (Point 1 1) 3 = Some (Inr (ListIt [3, 0, 1], iterator_default))"
proof -
  have "ps_size scenario_tree = 5" by (simp add: ps_size_def scenario_tree_def)
  then show ?thesis
    by (simp add: nearest_k_def scenario_seed scenario_make_heap scenario_scan del: One_nat_def)
qed

lemma scenario_nearest_k_drain:
  "drain scenario_tree (ListIt [3, 0, 1]) iterator_default [] =
     Some (Inr [Point 1 1, Point 0 0, Point 0 2])"
  by code_simp

lemma scenario_d9:
  "0 \<le> distance (Point (9 / 10) (9 / 10)) (Point 1 1)"
  "distance (Point (9 / 10) (9 / 10)) (Point 1 1) \<le> 1 / 5"
proof -
  show "0 \<le> distance (Point (9 / 10) (9 / 10)) (Point 1 1)" by (simp add: distance_def sqr_def)
  have "sqr (9 / 10 - 1) + sqr (9 / 10 - 1) \<le> (1 / 5)\<^sup>2"
    by (simp add: sqr_def power2_eq_square)
  then show "distance (Point (9 / 10) (9 / 10)) (Point 1 1) \<le> 1 / 5"
    unfolding distance_def point.sel by (intro real_le_lsqrt) simp_all
qed

lemma nearest_rec_prune:
  "m \<le> rect_distance r q \<Longrightarrow> nearest_rec (Node a p r s l rt par) q (m, ans) = (m, ans)"
  by simp

lemma nearest_rec_closer:
  "\<not> m \<le> rect_distance r q \<Longrightarrow> distance q p < m \<Longrightarrow>
   nearest_rec (Node a p r s l rt par) q (m, ans) =
     nearest_rec rt q (nearest_rec l q (distance q p, Some a))"
  by simp

lemma scenario_nearest:
  "nearest scenario_tree (Point (9 / 10) (9 / 10)) = Inr (Some (Point 1 1))"
proof -
  let ?q = "Point (9 / 10) (9 / 10)"
  let ?d = "distance ?q (Point 1 1)"
  have big: "1 / 5 < DBL_MAX" by (simp add: DBL_MAX_def)
  have c1: "?d < DBL_MAX" using scenario_d9(2) big by linarith
  have r0: "rect_distance (Rect (Point 0 0) (Point 2 2)) ?q = 0"
    by (simp add: rect_distance_def contains_def EPS_def)
  have r1: "rect_distance (Rect (Point 0 0) (Point 0 2)) ?q = 9 / 10"
    by (simp add: rect_distance_def contains_def EPS_def xmax_def ymin_def)
  have r2: "rect_distance (Rect (Point 2 0) (Point 2 2)) ?q = 11 / 10"
    by (simp add: rect_distance_def contains_def EPS_def xmin_def ymin_def)
  have c0: "\<not> DBL_MAX \<le> rect_distance (Rect (Point 0 0) (Point 2 2)) ?q"
    unfolding r0 using big by linarith
  have p1: "?d \<le> rect_distance (Rect (Point 0 0) (Point 0 2)) ?q"
    unfolding r1 using scenario_d9(2) by linarith
  have p2: "?d \<le> rect_distance (Rect (Point 2 0) (Point 2 2)) ?q"
    unfolding r2 using scenario_d9(2) by linarith
  have "nearest_rec scenario_tree ?q (DBL_MAX, None) = (?d, Some 1)"
    unfolding scenario_tree_def
    by (simp only: nearest_rec_closer[OF c0 c1] nearest_rec_prune[OF p1] nearest_rec_prune[OF p2])
  moreover have "scenario_tree \<noteq> Null" "n_point scenario_tree = Point 1 1"
    by (simp_all add: scenario_tree_def)
  ultimately show ?thesis by (simp add: nearest_def scenario_node_at del: One_nat_def)
qed

section \<open>Exhausting a list-backed iterator\<close>

lemma advance_list: "advance t (length ns) (ListIt ns) = Some (Inr (ListIt []))"
proof (induction ns rule: rev_induct)
  case Nil
  show ?case by simp
next
  case (snoc n ns)
  then show ?case by simp
qed


section \<open>The constructor from a file, on a non-empty list\<close>

lemma point_less_neither:
  assumes "\<not> point_less e p" and "\<not> point_less p e"
  shows "e = p"
proof -
  have x: "m_x e = m_x p" using assms by (auto simp: point_less_def)
  have "\<bar>m_x e - m_x p\<bar> < EPS" "\<bar>m_x p - m_x e\<bar> < EPS" using x by (simp_all add: EPS_def)
  then have "m_y e = m_y p" using assms by (auto simp: point_less_def)
  then show ?thesis using x by (simp add: point.expand)
qed

lemma set_set_emplace: "set (set_emplace p es) = insert p (set es)"
  by (induction es) (auto dest: point_less_neither)

lemma set_foldl_emplace:
  "set (foldl (\<lambda>s p. set_emplace p s) acc input) = set acc \<union> set input"
  by (induction input arbitrary: acc) (simp_all add: set_set_emplace)

lemma build_tree_parent:
  assumes "ns \<noteq> []" and "Null \<notin> set ns" and "\<And>n. n \<in> set ns \<Longrightarrow> n_parent n = None"
  shows "n_parent (build_tree ns cx) = None"
proof -
  from build_tree_step[OF assms(1,2), of cx]
  obtain srt m a p r s l rt par where
    srt: "srt = sort_key (axis_key cx) ns"
    and m: "m = shift_median cx srt (length srt div 2)"
    and lt: "m < length ns"
    and n: "srt ! m = Node a p r s l rt par"
    and b: "build_tree ns cx =
       update_data (Node a p r s (build_tree (take m srt) (\<not> cx))
                      (build_tree (drop (Suc m) srt) (\<not> cx)) par)"
    by blast
  have len: "length srt = length ns" and st: "set srt = set ns" using srt by simp_all
  have "srt ! m \<in> set srt" using lt len by simp
  then have "Node a p r s l rt par \<in> set ns" using st n by simp
  then have "n_parent (Node a p r s l rt par) = None" by (rule assms(3))
  then show ?thesis unfolding b by simp
qed

lemma enumerate_labels:
  "map fst (map (\<lambda>(i, p). (alloc i, p)) (enumerate n ps)) = map alloc [n..<n + length ps]"
  "map snd (map (\<lambda>(i, p). (alloc i, p)) (enumerate n ps)) = ps"
proof -
  have "map fst (map (\<lambda>(i, p). (alloc i, p)) (enumerate n ps)) =
      map (\<lambda>x. alloc (fst x)) (enumerate n ps)"
    by (simp add: split_def comp_def)
  also have "\<dots> = map alloc (map fst (enumerate n ps))"
    by (simp only: map_map comp_def)
  also have "\<dots> = map alloc [n..<n + length ps]"
    by (simp only: map_fst_enumerate)
  finally show "map fst (map (\<lambda>(i, p). (alloc i, p)) (enumerate n ps)) = map alloc [n..<n + length ps]" .
  have "map snd (map (\<lambda>(i, p). (alloc i, p)) (enumerate n ps)) = map snd (enumerate n ps)"
    by (simp add: split_def comp_def)
  then show "map snd (map (\<lambda>(i, p). (alloc i, p)) (enumerate n ps)) = ps"
    by (simp only: map_snd_enumerate)
qed

lemma new_nodes_label:
  "map label (map (\<lambda>(i, p). new_node (alloc i) p) ips) = map (\<lambda>(i, p). (alloc i, p)) ips"
  by (induction ips) (auto simp: label_def new_node_def)

text \<open>
  The result of the constructor in the model, where the set of the points read is the
  sequence of \<open>set_emplace\<close>.
\<close>

lemma PointSet_of_file_nonempty:
  assumes "inj alloc" and "input \<noteq> []"
  shows "\<exists>t. PointSet_of_file alloc input = Inr t \<and> wf_tree t \<and>
           traversal t = Some (Inr (points_of t)) \<and> set (points_of t) = set input"
proof -
  define points where "points = foldl (\<lambda>s p. set_emplace p s) [] input"
  define nodes where "nodes = map (\<lambda>(i, p). new_node (alloc i) p) (enumerate 0 points)"
  define m_root where "m_root = build_tree nodes True"
  define t where "t = fix_parents None m_root"
  have sp: "set points = set input" unfolding points_def by (simp add: set_foldl_emplace)
  then have pne: "points \<noteq> []" using assms(2) by auto
  have "length nodes = length points" by (simp add: nodes_def)
  then have nne: "nodes \<noteq> []" using pne by auto
  have nn: "Null \<notin> set nodes" by (auto simp: nodes_def new_node_def)
  have np: "\<And>n. n \<in> set nodes \<Longrightarrow> n_parent n = None" by (auto simp: nodes_def new_node_def)
  have lab: "map label nodes = map (\<lambda>(i, p). (alloc i, p)) (enumerate 0 points)"
    unfolding nodes_def by (rule new_nodes_label)
  have la: "map fst (map label nodes) = map alloc [0..<length points]"
    unfolding lab using enumerate_labels(1)[of alloc 0 points] by simp
  have lp: "map snd (map label nodes) = points"
    unfolding lab by (rule enumerate_labels(2))
  have rn: "m_root \<noteq> Null" unfolding m_root_def using nne nn by (rule build_tree_nonnull)
  have rp: "n_parent m_root = None" unfolding m_root_def using nne nn np by (rule build_tree_parent)
  have ml: "mset (labels_of m_root) = mset (map label nodes)"
    unfolding m_root_def using nn by (rule build_tree_labels)
  have "PointSet_of_file alloc input = set_parents m_root"
    unfolding PointSet_of_file_def Let_def m_root_def nodes_def points_def ..
  then have r: "PointSet_of_file alloc input = Inr t"
    using set_parents_nonnull[OF rn] rp by (simp add: t_def)
  have "mset (map fst (labels_of m_root)) = mset (map fst (map label nodes))"
    using ml by (metis mset_map)
  then have "mset (addrs_of t) = mset (map alloc [0..<length points])"
    unfolding la by (simp add: t_def addrs_of_def)
  moreover have "distinct (map alloc [0..<length points])"
    using assms(1) by (simp add: distinct_map inj_on_def inj_def)
  ultimately have d: "distinct (addrs_of t)" using mset_eq_imp_distinct_iff by blast
  have w: "wf_tree t" using d by (simp add: wf_tree_def t_def)
  have "mset (map snd (labels_of m_root)) = mset (map snd (map label nodes))"
    using ml by (metis mset_map)
  then have "mset (points_of t) = mset points"
    unfolding lp by (simp add: t_def points_of_def)
  then have "set (points_of t) = set points" by (rule mset_eq_setD)
  then show ?thesis using r w traversal_wf[OF w] sp by simp
qed

section \<open>The copy constructor, on a non-empty set\<close>

lemma copy_node_Null_iff [simp]: "copy_node alloc t = Null \<longleftrightarrow> t = Null"
  by (cases t) simp_all

lemma copy_node_labels:
  "labels_of (copy_node alloc t) = map (\<lambda>(a, p). (alloc a, p)) (labels_of t)"
  by (induction t) simp_all

lemma copy_node_size: "t \<noteq> Null \<Longrightarrow> get_size (copy_node alloc t) = 1"
  by (cases t) simp_all

lemma copy_node_parent: "t \<noteq> Null \<Longrightarrow> n_parent (copy_node alloc t) = None"
  by (cases t) simp_all

lemma PointSet_copy_nonempty:
  assumes "other \<noteq> Null"
  shows "PointSet_copy alloc other = Inr (fix_parents None (copy_node alloc other)) \<and>
         points_of (fix_parents None (copy_node alloc other)) = points_of other \<and>
         parents_ok None (fix_parents None (copy_node alloc other)) \<and>
         ps_size (fix_parents None (copy_node alloc other)) = 1"
proof -
  have "copy_node alloc other \<noteq> Null" using assms by simp
  then have "set_parents (copy_node alloc other) = Inr (fix_parents None (copy_node alloc other))"
    using set_parents_nonnull[of "copy_node alloc other"] copy_node_parent[OF assms] by simp
  then show ?thesis using assms
    by (simp add: PointSet_copy_def points_of_def copy_node_labels split_def comp_def
        ps_size_def copy_node_size)
qed


section \<open>What the range query returns\<close>

lemma range_rec_Node:
  "range_rec (Node a p r s l rt par) rc acc =
     (if \<not> intersects r rc then acc
      else if rt \<noteq> Null \<and> intersects (n_rect rt) rc
        then range_rec rt rc
               (if l \<noteq> Null \<and> intersects (n_rect l) rc
                then range_rec l rc (if contains rc p then acc @ [a] else acc)
                else (if contains rc p then acc @ [a] else acc))
        else (if l \<noteq> Null \<and> intersects (n_rect l) rc
              then range_rec l rc (if contains rc p then acc @ [a] else acc)
              else (if contains rc p then acc @ [a] else acc)))"
  by (simp only: range_rec.simps Let_def)

lemma range_rec_mono: "set acc \<subseteq> set (range_rec t rc acc)"
proof (induction t arbitrary: acc)
  case Null
  show ?case by simp
next
  case (Node a p r s l rt par)
  let ?res1 = "if contains rc p then acc @ [a] else acc"
  let ?res2 = "if l \<noteq> Null \<and> intersects (n_rect l) rc then range_rec l rc ?res1 else ?res1"
  let ?res3 = "if rt \<noteq> Null \<and> intersects (n_rect rt) rc then range_rec rt rc ?res2 else ?res2"
  have 1: "set acc \<subseteq> set ?res1" by auto
  have 2: "set ?res1 \<subseteq> set ?res2" using Node.IH(1)[of ?res1] by (cases "l \<noteq> Null \<and> intersects (n_rect l) rc") simp_all
  have 3: "set ?res2 \<subseteq> set ?res3"
    using Node.IH(2)[of ?res2] by (cases "rt \<noteq> Null \<and> intersects (n_rect rt) rc") simp_all
  have "range_rec (Node a p r s l rt par) rc acc = (if \<not> intersects r rc then acc else ?res3)"
    by (rule range_rec_Node)
  moreover have "set acc \<subseteq> set ?res3" using 1 2 3 by blast
  ultimately show ?case by (cases "intersects r rc") simp_all
qed

lemma range_rec_sound:
  "n \<in> set (range_rec t rc acc) \<Longrightarrow>
   n \<in> set acc \<or> (\<exists>p. (n, p) \<in> set (labels_of t) \<and> contains rc p)"
proof (induction t arbitrary: acc)
  case Null
  then show ?case by simp
next
  case (Node a p r s l rt par)
  let ?res1 = "if contains rc p then acc @ [a] else acc"
  let ?res2 = "if l \<noteq> Null \<and> intersects (n_rect l) rc then range_rec l rc ?res1 else ?res1"
  let ?res3 = "if rt \<noteq> Null \<and> intersects (n_rect rt) rc then range_rec rt rc ?res2 else ?res2"
  have res: "range_rec (Node a p r s l rt par) rc acc = (if \<not> intersects r rc then acc else ?res3)"
    by (rule range_rec_Node)
  have 0: "n \<in> set acc \<or> n \<in> set ?res3"
    using Node.prems unfolding res by (cases "intersects r rc") simp_all
  have 3: "n \<in> set ?res2 \<or> (\<exists>q. (n, q) \<in> set (labels_of rt) \<and> contains rc q)" if "n \<in> set ?res3"
    using that Node.IH(2)[of ?res2] by (cases "rt \<noteq> Null \<and> intersects (n_rect rt) rc") simp_all
  have 2: "n \<in> set ?res1 \<or> (\<exists>q. (n, q) \<in> set (labels_of l) \<and> contains rc q)" if "n \<in> set ?res2"
    using that Node.IH(1)[of ?res1] by (cases "l \<noteq> Null \<and> intersects (n_rect l) rc") simp_all
  have 1: "n \<in> set acc \<or> (n = a \<and> contains rc p)" if "n \<in> set ?res1"
    using that by (cases "contains rc p") auto
  have "n \<in> set acc \<or> (n = a \<and> contains rc p) \<or>
        (\<exists>q. (n, q) \<in> set (labels_of l) \<and> contains rc q) \<or>
        (\<exists>q. (n, q) \<in> set (labels_of rt) \<and> contains rc q)"
    using 0 1 2 3 by blast
  then show ?case by auto
qed

lemma inside_contains: "inside rc p \<Longrightarrow> contains rc p"
  by (cases rc; cases p) (simp add: inside_def contains_def xmin_def xmax_def ymin_def ymax_def EPS_def)

lemma inside_bbox: "p \<in> set ps \<Longrightarrow> inside (bbox ps) p"
  by (simp add: inside_def bbox_def xmin_def xmax_def ymin_def ymax_def)

lemma inside_n_rect:
  assumes "rects_ok t" and "p \<in> set (points_of t)"
  shows "inside (n_rect t) p"
proof -
  have "t \<noteq> Null" using assms(2) by auto
  then have "n_rect t = bbox (points_of t)" using assms(1) rects_ok_bbox by blast
  then show ?thesis using inside_bbox[OF assms(2)] by simp
qed

lemma inside_intersects: "inside r p \<Longrightarrow> inside rc p \<Longrightarrow> intersects r rc"
  by (auto simp: inside_def intersects_def)

lemma labels_points: "(n, p) \<in> set (labels_of t) \<Longrightarrow> p \<in> set (points_of t)"
  by (force simp: points_of_def)

lemma range_rec_complete:
  "rects_ok t \<Longrightarrow> (n, q) \<in> set (labels_of t) \<Longrightarrow> inside rc q \<Longrightarrow>
   n \<in> set (range_rec t rc acc)"
proof (induction t arbitrary: acc)
  case Null
  then show ?case by simp
next
  case (Node a p r s l rt par)
  let ?t = "Node a p r s l rt par"
  let ?res1 = "if contains rc p then acc @ [a] else acc"
  let ?res2 = "if l \<noteq> Null \<and> intersects (n_rect l) rc then range_rec l rc ?res1 else ?res1"
  let ?res3 = "if rt \<noteq> Null \<and> intersects (n_rect rt) rc then range_rec rt rc ?res2 else ?res2"
  have rl: "rects_ok l" and rr: "rects_ok rt" using Node.prems(1) by simp_all
  have "inside (n_rect ?t) q" using inside_n_rect[OF Node.prems(1) labels_points[OF Node.prems(2)]] .
  then have "intersects r rc" using inside_intersects[OF _ Node.prems(3)] by simp
  then have res: "range_rec ?t rc acc = ?res3" by (simp only: range_rec_Node if_False not_True_eq_False simp_thms)
  have m2: "set ?res1 \<subseteq> set ?res2"
    using range_rec_mono[of ?res1 l rc] by (cases "l \<noteq> Null \<and> intersects (n_rect l) rc") simp_all
  have m3: "set ?res2 \<subseteq> set ?res3"
    using range_rec_mono[of ?res2 rt rc] by (cases "rt \<noteq> Null \<and> intersects (n_rect rt) rc") simp_all
  from Node.prems(2) consider "(n, q) = (a, p)" | "(n, q) \<in> set (labels_of l)"
    | "(n, q) \<in> set (labels_of rt)" by auto
  then have "n \<in> set ?res3"
  proof cases
    case 1
    then have "contains rc p" using inside_contains[OF Node.prems(3)] by simp
    then have "n \<in> set ?res1" using 1 by simp
    then show ?thesis using m2 m3 by blast
  next
    case 2
    then have "l \<noteq> Null" by auto
    moreover have "intersects (n_rect l) rc"
      using inside_intersects[OF inside_n_rect[OF rl labels_points[OF 2]] Node.prems(3)] .
    moreover have "n \<in> set (range_rec l rc ?res1)" using Node.IH(1)[OF rl 2 Node.prems(3)] .
    ultimately have "n \<in> set ?res2" by simp
    then show ?thesis using m3 by blast
  next
    case 3
    then have "rt \<noteq> Null" by auto
    moreover have "intersects (n_rect rt) rc"
      using inside_intersects[OF inside_n_rect[OF rr labels_points[OF 3]] Node.prems(3)] .
    moreover have "n \<in> set (range_rec rt rc ?res2)" using Node.IH(2)[OF rr 3 Node.prems(3)] .
    ultimately show ?thesis by simp
  qed
  then show ?case using res by simp
qed


text \<open>
  In the model the result lies between the points of the closed rectangle and the points
  that pass \<open>contains\<close>, the tests being those of exact arithmetic.
\<close>

lemma range_rec_bounds:
  assumes "rects_ok t"
  shows "{n. \<exists>q. (n, q) \<in> set (labels_of t) \<and> inside rc q} \<subseteq> set (range_rec t rc []) \<and>
         set (range_rec t rc []) \<subseteq> {n. \<exists>q. (n, q) \<in> set (labels_of t) \<and> contains rc q}"
  using range_rec_complete[OF assms] range_rec_sound[of _ t rc "[]"] by auto


section \<open>When the nearest-neighbour search finds a point\<close>

lemma node_at_in: "n \<in> set (addrs_of t) \<Longrightarrow> node_at t n \<noteq> Null"
  by (induction t) auto

lemma nearest_rec_Node:
  "nearest_rec (Node a p r s l rt par) q (m, ans) =
     (if m \<le> rect_distance r q then (m, ans)
      else nearest_rec rt q (nearest_rec l q
             (if distance q p < m then (distance q p, Some a) else (m, ans))))"
  by (simp add: Let_def)

lemma nearest_rec_keeps: "snd st \<noteq> None \<Longrightarrow> snd (nearest_rec t q st) \<noteq> None"
proof (induction t arbitrary: st)
  case Null
  then show ?case by simp
next
  case (Node a p r s l rt par)
  obtain m ans where st: "st = (m, ans)" by (cases st)
  let ?st1 = "if distance q p < m then (distance q p, Some a) else (m, ans)"
  have "snd ?st1 \<noteq> None" using Node.prems st by simp
  then have "snd (nearest_rec rt q (nearest_rec l q ?st1)) \<noteq> None"
    using Node.IH by blast
  then show ?case using Node.prems unfolding st nearest_rec_Node by (cases "m \<le> rect_distance r q") simp_all
qed

lemma nearest_rec_ans:
  "snd (nearest_rec t q st) = Some n \<Longrightarrow> snd st = Some n \<or> n \<in> set (addrs_of t)"
proof (induction t arbitrary: st)
  case Null
  then show ?case by simp
next
  case (Node a p r s l rt par)
  obtain m ans where st: "st = (m, ans)" by (cases st)
  let ?st1 = "if distance q p < m then (distance q p, Some a) else (m, ans)"
  show ?case
  proof (cases "m \<le> rect_distance r q")
    case True
    then show ?thesis using Node.prems unfolding st nearest_rec_Node by simp
  next
    case False
    then have "snd (nearest_rec rt q (nearest_rec l q ?st1)) = Some n"
      using Node.prems unfolding st nearest_rec_Node by simp
    then have "snd (nearest_rec l q ?st1) = Some n \<or> n \<in> set (addrs_of rt)"
      using Node.IH(2) by blast
    then have "snd ?st1 = Some n \<or> n \<in> set (addrs_of l) \<or> n \<in> set (addrs_of rt)"
      using Node.IH(1) by blast
    moreover have "snd ?st1 = Some n \<Longrightarrow> ans = Some n \<or> n = a" by (auto split: if_splits)
    ultimately show ?thesis unfolding st by auto
  qed
qed

text \<open>
  In the model the search returns a point when the rect of the root and the point of the
  root are closer than \<open>DBL_MAX\<close>, the distances being those of exact arithmetic.
\<close>

lemma nearest_finds:
  assumes "rect_distance r q < DBL_MAX" and "distance q p < DBL_MAX"
  shows "\<exists>x. nearest (Node a p r s l rt par) q = Inr (Some x)"
proof -
  let ?t = "Node a p r s l rt par"
  have e: "nearest_rec ?t q (DBL_MAX, None) = nearest_rec rt q (nearest_rec l q (distance q p, Some a))"
    using assms unfolding nearest_rec_Node by simp
  have "snd (nearest_rec l q (distance q p, Some a)) \<noteq> None" by (rule nearest_rec_keeps) simp
  then have "snd (nearest_rec ?t q (DBL_MAX, None)) \<noteq> None"
    unfolding e by (rule nearest_rec_keeps)
  then obtain n where n: "snd (nearest_rec ?t q (DBL_MAX, None)) = Some n" by blast
  then have "n \<in> set (addrs_of ?t)" using nearest_rec_ans[OF n] by simp
  then have "node_at ?t n \<noteq> Null" by (rule node_at_in)
  then show ?thesis using n unfolding nearest_def by simp
qed


section \<open>The search order under insertion and rebuilding\<close>

lemma point_eq_refl [simp]: "point_eq p p"
  by (simp add: point_eq_def EPS_def)

lemma points_with_parent [simp]: "points_of (with_parent t v) = points_of t"
  by (simp add: points_of_def)

lemma points_fix_parents [simp]: "points_of (fix_parents par t) = points_of t"
  by (simp add: points_of_def)

lemma kd_ordered_with_parent [simp]: "kd_ordered cx (with_parent t v) = kd_ordered cx t"
  by (cases t) simp_all

lemma kd_ordered_fix_parents [simp]: "kd_ordered cx (fix_parents par t) = kd_ordered cx t"
  by (induction t arbitrary: cx par) simp_all

lemma insert_node_points:
  "mset (points_of (fst (insert_node a t pt cx))) =
     mset (points_of t) + (if ps_contains t pt cx then {#} else {#pt#})"
proof -
  have "image_mset snd (mset (labels_of (fst (insert_node a t pt cx)))) =
      image_mset snd (mset (labels_of t) + (if ps_contains t pt cx then {#} else {#(a, pt)#}))"
    by (simp only: insert_node_labels)
  then show ?thesis by (simp add: points_of_def)
qed

lemma insert_node_points_set:
  "set (points_of (fst (insert_node a t pt cx))) \<subseteq> insert pt (set (points_of t))"
proof -
  have "set_mset (mset (points_of (fst (insert_node a t pt cx)))) \<subseteq>
      set_mset (mset (points_of t) + {#pt#})"
    unfolding insert_node_points by (cases "ps_contains t pt cx") auto
  then show ?thesis by simp
qed

lemma insert_node_ordered:
  "kd_ordered cx t \<Longrightarrow> kd_ordered cx (fst (insert_node a t pt cx))"
proof (induction t arbitrary: cx)
  case Null
  then show ?case by (simp add: new_node_def)
next
  case (Node ra rp rr rs l rt par)
  show ?case
  proof (cases "point_eq rp pt")
    case True
    then show ?thesis using Node.prems by (simp add: fst_insert_node_Node del: insert_node.simps)
  next
    case False
    show ?thesis
    proof (cases "less_pt pt rp cx")
      case True
      have o: "kd_ordered (\<not> cx) (fst (insert_node a l pt (\<not> cx)))"
        using Node.IH(1) Node.prems by simp
      have "\<forall>q\<in>set (points_of (fst (insert_node a l pt (\<not> cx)))). less_pt q rp cx"
        using insert_node_points_set[of a l pt "\<not> cx"] True Node.prems by auto
      then show ?thesis using Node.prems False True o
        by (simp add: fst_insert_node_Node del: insert_node.simps)
    next
      case nl: False
      have o: "kd_ordered (\<not> cx) (fst (insert_node a rt pt (\<not> cx)))"
        using Node.IH(2) Node.prems by simp
      have "\<forall>q\<in>set (points_of (fst (insert_node a rt pt (\<not> cx)))). \<not> less_pt q rp cx"
        using insert_node_points_set[of a rt pt "\<not> cx"] nl Node.prems by auto
      then show ?thesis using Node.prems False nl o
        by (simp add: fst_insert_node_Node del: insert_node.simps)
    qed
  qed
qed

lemma insert_node_axis:
  "insert_node a t pt cx = (t', Some path, c) \<Longrightarrow> c = axis_at cx path"
proof (induction t arbitrary: cx t' path c)
  case Null
  then show ?case by simp
next
  case (Node ra rp rr rs l rt par)
  show ?case
  proof (cases "point_eq rp pt")
    case True
    then show ?thesis using Node.prems by simp
  next
    case False
    show ?thesis
    proof (cases "less_pt pt rp cx")
      case True
      obtain to br pc where i: "insert_node a l pt (\<not> cx) = (to, br, pc)"
        by (cases "insert_node a l pt (\<not> cx)") auto
      show ?thesis
      proof (cases path)
        case Nil
        then show ?thesis using Node.prems False True i
          by (auto simp: Let_def split: if_splits)
      next
        case (Cons d ds)
        then have "br = Some ds" and "c = pc"
          using Node.prems False True i by (auto simp: Let_def split: if_splits)
        then have "c = axis_at (\<not> cx) ds" using Node.IH(1)[OF i[unfolded \<open>br = Some ds\<close>]] by simp
        then show ?thesis using Cons by simp
      qed
    next
      case nl: False
      obtain to br pc where i: "insert_node a rt pt (\<not> cx) = (to, br, pc)"
        by (cases "insert_node a rt pt (\<not> cx)") auto
      show ?thesis
      proof (cases path)
        case Nil
        then show ?thesis using Node.prems False nl i
          by (auto simp: Let_def split: if_splits)
      next
        case (Cons d ds)
        then have "br = Some ds" and "c = pc"
          using Node.prems False nl i by (auto simp: Let_def split: if_splits)
        then have "c = axis_at (\<not> cx) ds" using Node.IH(2)[OF i[unfolded \<open>br = Some ds\<close>]] by simp
        then show ?thesis using Cons by simp
      qed
    qed
  qed
qed

lemma get_slot_ordered:
  "kd_ordered cx t \<Longrightarrow> kd_ordered (axis_at cx path) (get_slot path t)"
  by (induction path t arbitrary: cx rule: get_slot.induct) simp_all

lemma set_slot_ordered:
  "kd_ordered cx t \<Longrightarrow> kd_ordered (axis_at cx path) sub' \<Longrightarrow>
   set (points_of sub') = set (points_of (get_slot path t)) \<Longrightarrow>
   kd_ordered cx (set_slot path t sub') \<and>
   set (points_of (set_slot path t sub')) = set (points_of t)"
proof (induction path t sub' arbitrary: cx rule: set_slot.induct)
  case (1 t v)
  then show ?case by simp
next
  case (2 d ds v)
  then show ?case by simp
next
  case (3 ds a p r s l rt par v)
  have "kd_ordered (\<not> cx) (set_slot ds l v) \<and> set (points_of (set_slot ds l v)) = set (points_of l)"
    using "3.IH"[of "\<not> cx"] "3.prems" by simp
  then show ?case using "3.prems"(1) by simp
next
  case (4 ds a p r s l rt par v)
  have "kd_ordered (\<not> cx) (set_slot ds rt v) \<and> set (points_of (set_slot ds rt v)) = set (points_of rt)"
    using "4.IH"[of "\<not> cx"] "4.prems" by simp
  then show ?case using "4.prems"(1) by simp
qed

lemma shift_median_less:
  "shift_median cx ns k = Suc j \<Longrightarrow> less_node (ns ! j) (ns ! Suc j) cx"
  by (induction k) (auto split: if_splits)

lemma build_tree_points:
  assumes "Null \<notin> set ns"
  shows "set (points_of (build_tree ns cx)) = n_point ` set ns"
proof -
  have "mset (map snd (labels_of (build_tree ns cx))) = mset (map snd (map label ns))"
    by (simp only: mset_map build_tree_labels[OF assms])
  then have "mset (points_of (build_tree ns cx)) = mset (map n_point ns)"
    by (simp add: points_of_def label_def comp_def)
  then have "set (points_of (build_tree ns cx)) = set (map n_point ns)"
    by (rule mset_eq_setD)
  then show ?thesis by simp
qed

lemma build_tree_ordered:
  assumes "Null \<notin> set ns"
  shows "kd_ordered cx (build_tree ns cx)"
  using assms
proof (induction ns cx rule: build_tree_induct)
  case (Nil cx)
  show ?case by simp
next
  case (Step ns cx srt m a p r s l rt par)
  have len: "length srt = length ns" and st: "set srt = set ns" using Step(3) by simp_all
  have so: "sorted (map (axis_key cx) srt)" unfolding Step(3) by (rule sorted_sort_key)
  have n1: "Null \<notin> set (take m srt)" using Step(2) st by (auto dest: in_set_takeD)
  have n2: "Null \<notin> set (drop (Suc m) srt)" using Step(2) st by (auto dest: in_set_dropD)
  have mlt: "m < length srt" using Step(5) len by simp
  have key: "axis_key cx (srt ! i) \<le> axis_key cx (srt ! j)" if "i \<le> j" "j < length srt" for i j
    using sorted_nth_mono[OF so, of i j] that by simp
  have pm: "n_point (srt ! m) = p" using Step(6) by simp
  have lo: "less_pt q p cx" if qin: "q \<in> n_point ` set (take m srt)" for q
  proof -
    obtain n where n: "n \<in> set (take m srt)" "q = n_point n" using qin by auto
    then obtain k where "k < length (take m srt)" "take m srt ! k = n"
      by (auto simp: in_set_conv_nth)
    then have "k < m" "q = n_point (srt ! k)" using n(2) by simp_all
    then obtain i where i: "i < m" "q = n_point (srt ! i)" by blast
    then obtain j where j: "m = Suc j" by (cases m) auto
    have "less_node (srt ! j) (srt ! Suc j) cx"
      using shift_median_less[of cx srt "length srt div 2" j] Step(4) j by simp
    then have "axis_key cx (srt ! j) < axis_key cx (srt ! m)"
      using j by (simp add: less_node_def less_pt_def axis_key_def split: if_splits)
    moreover have "axis_key cx (srt ! i) \<le> axis_key cx (srt ! j)"
      using key[of i j] i j mlt by simp
    ultimately have "axis_key cx (srt ! i) < axis_key cx (srt ! m)" by simp
    then show ?thesis using i pm by (auto simp: less_pt_def axis_key_def split: if_splits)
  qed
  have hi: "\<not> less_pt q p cx" if qin: "q \<in> n_point ` set (drop (Suc m) srt)" for q
  proof -
    obtain n where n: "n \<in> set (drop (Suc m) srt)" "q = n_point n" using qin by auto
    then obtain k where k: "k < length (drop (Suc m) srt)" "drop (Suc m) srt ! k = n"
      by (auto simp: in_set_conv_nth)
    then have "Suc m + k < length srt" by simp
    moreover have "q = n_point (srt ! (Suc m + k))" using k n(2) by simp
    ultimately obtain i where i: "Suc m + i < length srt" "q = n_point (srt ! (Suc m + i))"
      by blast
    have "axis_key cx (srt ! m) \<le> axis_key cx (srt ! (Suc m + i))"
      using key[of m "Suc m + i"] i by simp
    then show ?thesis using i pm by (auto simp: less_pt_def axis_key_def split: if_splits)
  qed
  show ?case
    unfolding Step(7)
    using Step.IH lo hi build_tree_points[OF n1, of "\<not> cx"] build_tree_points[OF n2, of "\<not> cx"]
    by simp
qed

lemma rebuild_tree_ordered: "kd_ordered cx (rebuild_tree t cx)"
  unfolding rebuild_tree_def by (rule build_tree_ordered) (rule move_to_vector_nonnull, simp)

lemma rebuild_tree_points: "set (points_of (rebuild_tree t cx)) = set (points_of t)"
proof -
  have "image_mset snd (mset (labels_of (rebuild_tree t cx))) = image_mset snd (mset (labels_of t))"
    by (simp only: rebuild_tree_labels)
  then have "mset (points_of (rebuild_tree t cx)) = mset (points_of t)"
    by (simp add: points_of_def)
  then show ?thesis by (rule mset_eq_setD)
qed

lemma put_ordered:
  assumes "kd_ordered True t" and "put a t pt = Inr t'"
  shows "kd_ordered True t'"
proof -
  obtain t1 br c where i: "insert_node a t pt True = (t1, br, c)"
    by (cases "insert_node a t pt True") auto
  have t1: "t1 = fst (insert_node a t pt True)" using i by simp
  have o1: "kd_ordered True t1" unfolding t1 using assms(1) by (rule insert_node_ordered)
  show ?thesis
  proof (cases br)
    case None
    then have "put a t pt = Inr t1" using i put_None by simp
    then show ?thesis using assms(2) o1 by simp
  next
    case (Some path)
    define sub where "sub = get_slot path t1"
    define sub' where "sub' = fix_parents (n_parent sub) (rebuild_tree sub c)"
    have p: "put a t pt = Inr (set_slot path t1 sub')"
      using put_Some[OF i[unfolded Some]] by (simp add: sub'_def sub_def)
    have c: "c = axis_at True path" using insert_node_axis[OF i[unfolded Some]] .
    have 1: "kd_ordered (axis_at True path) sub'"
      unfolding sub'_def c by (simp add: rebuild_tree_ordered)
    have 2: "set (points_of sub') = set (points_of (get_slot path t1))"
      by (simp add: sub'_def sub_def rebuild_tree_points)
    from set_slot_ordered[OF o1 1 2] show ?thesis using p assms(2) by simp
  qed
qed

lemma ordered_contains:
  "kd_ordered cx t \<Longrightarrow> pt \<in> set (points_of t) \<Longrightarrow> ps_contains t pt cx"
proof (induction t arbitrary: cx)
  case Null
  then show ?case by simp
next
  case (Node a p r s l rt par)
  show ?case
  proof (cases "point_eq p pt")
    case True
    then show ?thesis by simp
  next
    case False
    then have ne: "pt \<noteq> p" by auto
    show ?thesis
    proof (cases "less_pt pt p cx")
      case True
      then have "pt \<in> set (points_of l)" using Node.prems ne by auto
      then show ?thesis using Node.IH(1)[of "\<not> cx"] Node.prems(1) False True by simp
    next
      case nl: False
      then have "pt \<in> set (points_of rt)" using Node.prems ne by auto
      then show ?thesis using Node.IH(2)[of "\<not> cx"] Node.prems(1) False nl by simp
    qed
  qed
qed

lemma contains_point_eq:
  "ps_contains t pt cx \<Longrightarrow> \<exists>q\<in>set (points_of t). point_eq q pt"
  by (induction t arbitrary: cx) (auto split: if_splits)

lemma eps_distinct_separated:
  assumes "\<forall>p\<in>set ps. \<forall>q\<in>set ps. point_eq p q \<longrightarrow> p = q"
  shows "set (eps_distinct ps) = set ps \<and> distinct (eps_distinct ps)"
  using assms
proof (induction ps)
  case Nil
  then show ?case by simp
next
  case (Cons p ps)
  have ih: "set (eps_distinct ps) = set ps" "distinct (eps_distinct ps)"
    using Cons.IH Cons.prems by simp_all
  have e: "(\<not> point_eq p q) = (q \<noteq> p)" if "q \<in> set ps" for q
    using Cons.prems that by auto
  have f: "filter (\<lambda>q. \<not> point_eq p q) (eps_distinct ps) = filter (\<lambda>q. q \<noteq> p) (eps_distinct ps)"
    by (rule filter_cong) (simp_all add: e ih(1))
  show ?case unfolding eps_distinct.simps f using ih by auto
qed

lemma put_general:
  assumes s: "sizes_ok t" and o: "kd_ordered True t" and d: "distinct (points_of t)"
  obtains t' where "put a t pt = Inr t'" "sizes_ok t'" "kd_ordered True t'"
    "distinct (points_of t')"
    "get_size t' = get_size t + (if ps_contains t pt True then 0 else 1)"
    "mset (points_of t') = mset (points_of t) + (if ps_contains t pt True then {#} else {#pt#})"
proof -
  obtain t' where p: "put a t pt = Inr t'"
    and l: "mset (labels_of t') =
           mset (labels_of t) + (if ps_contains t pt True then {#} else {#(a, pt)#})"
    and sz: "sizes_ok t \<Longrightarrow>
           sizes_ok t' \<and> get_size t' = get_size t + (if ps_contains t pt True then 0 else 1)"
    by (rule put_result[of a t pt]) blast
  have "image_mset snd (mset (labels_of t')) =
      image_mset snd (mset (labels_of t) + (if ps_contains t pt True then {#} else {#(a, pt)#}))"
    using l by simp
  then have m: "mset (points_of t') =
      mset (points_of t) + (if ps_contains t pt True then {#} else {#pt#})"
    by (simp add: points_of_def)
  have n: "pt \<notin> set (points_of t)" if "\<not> ps_contains t pt True"
    using ordered_contains[OF o, of pt] that by blast
  have m': "mset (points_of t') =
      mset (if ps_contains t pt True then points_of t else pt # points_of t)"
    using m by simp
  have d': "distinct (points_of t')"
    using mset_eq_imp_distinct_iff[OF m'] d n by (simp split: if_splits)
  show ?thesis
    using that[OF p _ put_ordered[OF o p] d' _ m] sz[OF s] by simp
qed

lemma puts_general:
  assumes "sizes_ok t" and "kd_ordered True t" and "distinct (points_of t)"
  shows "\<exists>t'. puts alloc i t ps = Inr t' \<and> sizes_ok t' \<and> kd_ordered True t' \<and>
           distinct (points_of t') \<and> set (points_of t) \<subseteq> set (points_of t') \<and>
           set (points_of t') \<subseteq> set (points_of t) \<union> set ps \<and>
           (\<forall>p\<in>set ps. \<exists>q\<in>set (points_of t'). point_eq q p)"
  using assms
proof (induction ps arbitrary: t i)
  case Nil
  then show ?case by simp
next
  case (Cons pt ps)
  obtain t1 where p: "put (alloc i) t pt = Inr t1" and 1: "sizes_ok t1" "kd_ordered True t1"
    "distinct (points_of t1)"
    and m: "mset (points_of t1) =
      mset (points_of t) + (if ps_contains t pt True then {#} else {#pt#})"
    using put_general[OF Cons.prems, of "alloc i" pt] by metis
  have m': "mset (points_of t1) =
      mset (if ps_contains t pt True then points_of t else pt # points_of t)"
    using m by simp
  have s1: "set (points_of t1) =
      (if ps_contains t pt True then set (points_of t) else insert pt (set (points_of t)))"
    using mset_eq_setD[OF m'] by (simp split: if_splits)
  have c1: "\<exists>q\<in>set (points_of t1). point_eq q pt"
  proof (cases "ps_contains t pt True")
    case True
    then show ?thesis using contains_point_eq[of t pt True] s1 by simp
  next
    case False
    then show ?thesis using s1 by simp
  qed
  obtain t' where r: "puts alloc (Suc i) t1 ps = Inr t'" and 2: "sizes_ok t'" "kd_ordered True t'"
    "distinct (points_of t')" and sub: "set (points_of t1) \<subseteq> set (points_of t')"
    and sup: "set (points_of t') \<subseteq> set (points_of t1) \<union> set ps"
    and cov: "\<forall>p\<in>set ps. \<exists>q\<in>set (points_of t'). point_eq q p"
    using Cons.IH[OF 1, of "Suc i"] by blast
  have "puts alloc i t (pt # ps) = Inr t'" using p r by simp
  moreover have "set (points_of t) \<subseteq> set (points_of t')" using sub s1 by (auto split: if_splits)
  moreover have "set (points_of t') \<subseteq> set (points_of t) \<union> set (pt # ps)"
    using sup s1 by (auto split: if_splits)
  moreover have "\<forall>p\<in>set (pt # ps). \<exists>q\<in>set (points_of t'). point_eq q p"
    using cov c1 sub by auto
  ultimately show ?case using 2 by blast
qed


section \<open>C1: the range query against the containment test\<close>

text \<open>
  C1 says that \<open>range(r)\<close> returns exactly the stored points \<open>p\<close> with \<open>r.contains(p)\<close>.
  The set holding the single point \<open>(1/2 + 2\<^sup>-\<^sup>5\<^sup>3, 0)\<close> and the query rect
  \<open>((0,0), (1/2,1/2))\<close>: the point passes the epsilon-tolerant containment test, yet the
  exact \<open>intersects\<close> test prunes its node and the result is empty.
\<close>

theorem C1_range_misses_contained_point:
  "put 0 Null (Point (1 / 2 + 1 / 2 ^ 53) 0) = Inr (new_node 0 (Point (1 / 2 + 1 / 2 ^ 53) 0)) \<and>
   contains (Rect (Point 0 0) (Point (1 / 2) (1 / 2))) (Point (1 / 2 + 1 / 2 ^ 53) 0) \<and>
   range_query (new_node 0 (Point (1 / 2 + 1 / 2 ^ 53) 0)) (Rect (Point 0 0) (Point (1 / 2) (1 / 2)))
     = (ListIt [], ListIt [])"
  by (simp add: put_def new_node_def contains_def EPS_def range_query_def intersects_def
      xmin_def xmax_def ymin_def ymax_def iterator_default_def)


text \<open>The baseline set returns the point for the same set and the same query.\<close>

lemma baseline_range_returns_contained_point:
  "rb_range (rb_put [] (Point (1 / 2 + 1 / 2 ^ 53) 0)) (Rect (Point 0 0) (Point (1 / 2) (1 / 2)))
     = [Point (1 / 2 + 1 / 2 ^ 53) 0]"
  by (simp add: rb_range_def rb_put_def contains_def EPS_def)


section \<open>C2: the invariants after an insertion\<close>

text \<open>
  C2 says that after every \<open>put\<close> every node satisfies the weight balance (both
  children at most \<open>0.65\<close> of the subtree), the size invariant and the rect invariant.
  After \<open>put((0,0))\<close>, \<open>put((0,1))\<close>, \<open>put((0,2))\<close> the root is found unbalanced and its
  subtree is rebuilt; all three points tie on \<open>x\<close>, the median moves back to the first
  of them, and the new root has an empty left child and a right child of size 2 out of
  3: \<open>2 \<le> 0.65 * 3\<close> fails.
\<close>

theorem C2_put_can_leave_unbalanced_node:
  "puts (\<lambda>i. i) 0 Null [Point 0 0, Point 0 1] =
     Inr (Node 0 (Point 0 0) (Rect (Point 0 0) (Point 0 1)) 2 Null
            (Node 1 (Point 0 1) (Rect (Point 0 1) (Point 0 1)) 1 Null Null (Some 0)) None) \<and>
   put 2 (Node 0 (Point 0 0) (Rect (Point 0 0) (Point 0 1)) 2 Null
            (Node 1 (Point 0 1) (Rect (Point 0 1) (Point 0 1)) 1 Null Null (Some 0)) None)
         (Point 0 2) =
     Inr (Node 0 (Point 0 0) (Rect (Point 0 0) (Point 0 2)) 3 Null
            (Node 2 (Point 0 2) (Rect (Point 0 1) (Point 0 2)) 2
               (Node 1 (Point 0 1) (Rect (Point 0 1) (Point 0 1)) 1 Null Null (Some 2))
               Null (Some 0)) None) \<and>
   \<not> balanced (Node 0 (Point 0 0) (Rect (Point 0 0) (Point 0 2)) 3 Null
            (Node 2 (Point 0 2) (Rect (Point 0 1) (Point 0 2)) 2
               (Node 1 (Point 0 1) (Rect (Point 0 1) (Point 0 1)) 1 Null Null (Some 2))
               Null (Some 0)) None) \<and>
   \<not> real (get_size (Node 2 (Point 0 2) (Rect (Point 0 1) (Point 0 2)) 2
               (Node 1 (Point 0 1) (Rect (Point 0 1) (Point 0 1)) 1 Null Null (Some 2))
               Null (Some 0))) \<le> 0.65 * real 3"
  by code_simp


text \<open>
  C2 as amended: on a set whose nodes satisfy the size and rect invariants, \<open>put(p)\<close>
  returns with these two invariants at every node; and when every node was balanced
  and no two of the stored points and \<open>p\<close> share an \<open>x\<close> or a \<open>y\<close> coordinate, every
  node is balanced afterwards.
\<close>

theorem C2_put_invariants:
  assumes "sizes_ok t" and "rects_ok t"
  shows "\<exists>t'. put a t pt = Inr t' \<and> sizes_ok t' \<and> rects_ok t' \<and>
     (all_balanced t \<and> distinct (map m_x (pt # points_of t)) \<and>
      distinct (map m_y (pt # points_of t)) \<longrightarrow> all_balanced t')"
proof -
  obtain t' where p: "put a t pt = Inr t'"
    and s: "sizes_ok t \<Longrightarrow>
           sizes_ok t' \<and> get_size t' = get_size t + (if ps_contains t pt True then 0 else 1)"
    and r: "rects_ok t \<Longrightarrow> rects_ok t'"
    by (rule put_result[of a t pt]) blast
  have "all_balanced t'" if "all_balanced t" "distinct (map m_x (pt # points_of t))"
      "distinct (map m_y (pt # points_of t))"
    using put_balanced[OF that(1) assms(1) that(2,3) p] .
  then show ?thesis using p s[OF assms(1)] r[OF assms(2)] by blast
qed


text \<open>C2 as amended, at the set \<open>{(0,0), (1,1)}\<close> and the point \<open>(2,2)\<close>.\<close>

theorem C2_put_invariants_witness:
  "sizes_ok (Node 0 (Point 0 0) (Rect (Point 0 0) (Point 1 1)) 2 Null
            (Node 1 (Point 1 1) (Rect (Point 1 1) (Point 1 1)) 1 Null Null (Some 0)) None) \<and>
   rects_ok (Node 0 (Point 0 0) (Rect (Point 0 0) (Point 1 1)) 2 Null
            (Node 1 (Point 1 1) (Rect (Point 1 1) (Point 1 1)) 1 Null Null (Some 0)) None) \<and>
   all_balanced (Node 0 (Point 0 0) (Rect (Point 0 0) (Point 1 1)) 2 Null
            (Node 1 (Point 1 1) (Rect (Point 1 1) (Point 1 1)) 1 Null Null (Some 0)) None) \<and>
   distinct (map m_x (Point 2 2 # points_of (Node 0 (Point 0 0) (Rect (Point 0 0) (Point 1 1)) 2 Null
            (Node 1 (Point 1 1) (Rect (Point 1 1) (Point 1 1)) 1 Null Null (Some 0)) None))) \<and>
   distinct (map m_y (Point 2 2 # points_of (Node 0 (Point 0 0) (Rect (Point 0 0) (Point 1 1)) 2 Null
            (Node 1 (Point 1 1) (Rect (Point 1 1) (Point 1 1)) 1 Null Null (Some 0)) None))) \<and>
   (\<exists>t'. put 2 (Node 0 (Point 0 0) (Rect (Point 0 0) (Point 1 1)) 2 Null
            (Node 1 (Point 1 1) (Rect (Point 1 1) (Point 1 1)) 1 Null Null (Some 0)) None)
           (Point 2 2) = Inr t' \<and> sizes_ok t' \<and> rects_ok t' \<and> all_balanced t')"
proof -
  let ?t = "Node 0 (Point 0 0) (Rect (Point 0 0) (Point 1 1)) 2 Null
            (Node 1 (Point 1 1) (Rect (Point 1 1) (Point 1 1)) 1 Null Null (Some 0)) None"
  have s: "sizes_ok ?t" by simp
  have r: "rects_ok ?t" by (simp add: xmin_def xmax_def ymin_def ymax_def)
  have b: "all_balanced ?t" by (simp add: alpha_def)
  have dx: "distinct (map m_x (Point 2 2 # points_of ?t))" by simp
  have dy: "distinct (map m_y (Point 2 2 # points_of ?t))" by simp
  show ?thesis using C2_put_invariants[OF s r, of 2 "Point 2 2"] s r b dx dy
    by blast
qed


section \<open>C3: the nearest neighbour of a non-empty set\<close>

text \<open>
  C3 says that \<open>nearest(p)\<close> is empty only for the empty set, the best distance starting
  at infinity.  The search starts at \<open>DBL_MAX\<close> and prunes a node whose rect is at
  least that far: the set holding \<open>(-2\<^sup>1\<^sup>0\<^sup>2\<^sup>3, 0)\<close> is not empty, and the query
  \<open>(2\<^sup>1\<^sup>0\<^sup>2\<^sup>3, 0)\<close>, at distance \<open>2\<^sup>1\<^sup>0\<^sup>2\<^sup>4\<close>, gets no point.
\<close>

theorem C3_nearest_none_on_nonempty:
  "put 0 Null (Point (- (2 ^ 1023)) 0) = Inr (new_node 0 (Point (- (2 ^ 1023)) 0)) \<and>
   \<not> ps_empty (new_node 0 (Point (- (2 ^ 1023)) 0)) \<and>
   nearest (new_node 0 (Point (- (2 ^ 1023)) 0)) (Point (2 ^ 1023) 0) = Inr None"
proof -
  have d: "distance (Point (- (2 ^ 1023)) 0) (Point (2 ^ 1023) 0) = 2 ^ 1024"
    by (rule distance_eqI) simp_all
  have rd: "rect_distance (Rect (Point (- (2 ^ 1023)) 0) (Point (- (2 ^ 1023)) 0)) (Point (2 ^ 1023) 0)
     = distance (Point (- (2 ^ 1023)) 0) (Point (2 ^ 1023) 0)"
    by (simp add: rect_distance_def contains_def EPS_def)
  have "DBL_MAX \<le> 2 ^ 1024" by (simp add: DBL_MAX_def)
  then have "nearest (new_node 0 (Point (- (2 ^ 1023)) 0)) (Point (2 ^ 1023) 0) = Inr None"
    unfolding nearest_def new_node_def using rd d by simp
  then show ?thesis by (simp add: put_def new_node_def ps_empty_def)
qed


text \<open>The baseline set returns the stored point for the same set and the same query.\<close>

lemma baseline_nearest_returns_point:
  "rb_nearest (rb_put [] (Point (- (2 ^ 1023)) 0)) (Point (2 ^ 1023) 0) = Some (Point (- (2 ^ 1023)) 0)"
  by (simp add: rb_nearest_def rb_put_def)


section \<open>C4: the size after a sequence of insertions\<close>

text \<open>
  C4 says that \<open>size()\<close> is the number of inserted points that are distinct up to
  epsilon-equality, and that inserting a point epsilon-equal to a stored one changes
  nothing.  After \<open>put((1,0))\<close> and \<open>put((1,5))\<close> the point \<open>(1 - 2\<^sup>-\<^sup>5\<^sup>3, 5)\<close> is
  epsilon-equal to the stored \<open>(1,5)\<close>, but it descends to the left of the root, where
  \<open>(1,5)\<close> is not met: it is stored, and the size is 3 for 2 distinct points.
\<close>

theorem C4_size_counts_epsilon_equal_points:
  "puts (\<lambda>i. i) 0 Null [Point 1 0, Point 1 5] =
     Inr (Node 0 (Point 1 0) (Rect (Point 1 0) (Point 1 5)) 2 Null
            (Node 1 (Point 1 5) (Rect (Point 1 5) (Point 1 5)) 1 Null Null (Some 0)) None) \<and>
   point_eq (Point 1 5) (Point (1 - 1 / 2 ^ 53) 5) \<and>
   put 2 (Node 0 (Point 1 0) (Rect (Point 1 0) (Point 1 5)) 2 Null
            (Node 1 (Point 1 5) (Rect (Point 1 5) (Point 1 5)) 1 Null Null (Some 0)) None)
         (Point (1 - 1 / 2 ^ 53) 5) =
     Inr (Node 0 (Point 1 0) (Rect (Point (1 - 1 / 2 ^ 53) 0) (Point 1 5)) 3
            (Node 2 (Point (1 - 1 / 2 ^ 53) 5)
               (Rect (Point (1 - 1 / 2 ^ 53) 5) (Point (1 - 1 / 2 ^ 53) 5)) 1 Null Null (Some 0))
            (Node 1 (Point 1 5) (Rect (Point 1 5) (Point 1 5)) 1 Null Null (Some 0)) None) \<and>
   puts (\<lambda>i. i) 0 Null [Point 1 0, Point 1 5, Point (1 - 1 / 2 ^ 53) 5] =
     Inr (Node 0 (Point 1 0) (Rect (Point (1 - 1 / 2 ^ 53) 0) (Point 1 5)) 3
            (Node 2 (Point (1 - 1 / 2 ^ 53) 5)
               (Rect (Point (1 - 1 / 2 ^ 53) 5) (Point (1 - 1 / 2 ^ 53) 5)) 1 Null Null (Some 0))
            (Node 1 (Point 1 5) (Rect (Point 1 5) (Point 1 5)) 1 Null Null (Some 0)) None) \<and>
   ps_size (Node 0 (Point 1 0) (Rect (Point (1 - 1 / 2 ^ 53) 0) (Point 1 5)) 3
            (Node 2 (Point (1 - 1 / 2 ^ 53) 5)
               (Rect (Point (1 - 1 / 2 ^ 53) 5) (Point (1 - 1 / 2 ^ 53) 5)) 1 Null Null (Some 0))
            (Node 1 (Point 1 5) (Rect (Point 1 5) (Point 1 5)) 1 Null Null (Some 0)) None) = 3 \<and>
   length (eps_distinct [Point 1 0, Point 1 5, Point (1 - 1 / 2 ^ 53) 5]) = 2"
  by code_simp


text \<open>
  C4 as amended.  After every sequence of \<open>put\<close> calls on the empty set, the stored
  points are pairwise different points of the sequence and \<open>size()\<close> is their number;
  every inserted point is epsilon-equal to a stored point.  A further \<open>put(p)\<close>
  returns; it leaves the size and the stored points as they are when \<open>contains(p)\<close>
  holds, which is the case whenever \<open>p\<close> itself is stored and only if some stored point
  is epsilon-equal to \<open>p\<close>; otherwise it stores \<open>p\<close> and the size grows by one.  When
  no two different points of the sequence are epsilon-equal, the stored points are
  the points of the sequence, and \<open>size()\<close> is the number of distinct inserted
  points.
\<close>

theorem C4_size_counts_stored_points:
  "\<exists>t. puts alloc i Null ps = Inr t \<and>
     distinct (points_of t) \<and> set (points_of t) \<subseteq> set ps \<and>
     ps_size t = card (set (points_of t)) \<and>
     (\<forall>p\<in>set ps. \<exists>q\<in>set (points_of t). point_eq q p) \<and>
     (\<forall>p. \<exists>t'. put a t p = Inr t' \<and>
        (if ps_contains t p True
         then ps_size t' = ps_size t \<and> mset (points_of t') = mset (points_of t)
         else ps_size t' = ps_size t + 1 \<and> mset (points_of t') = mset (points_of t) + {#p#}) \<and>
        (p \<in> set (points_of t) \<longrightarrow> ps_contains t p True) \<and>
        (ps_contains t p True \<longrightarrow> (\<exists>q\<in>set (points_of t). point_eq q p))) \<and>
     ((\<forall>p\<in>set ps. \<forall>q\<in>set ps. point_eq p q \<longrightarrow> p = q) \<longrightarrow>
        set (points_of t) = set ps \<and> ps_size t = card (set ps) \<and>
        ps_size t = length (eps_distinct ps))"
proof -
  obtain t where p: "puts alloc i Null ps = Inr t" and s: "sizes_ok t" and o: "kd_ordered True t"
    and d: "distinct (points_of t)" and sub: "set (points_of t) \<subseteq> set ps"
    and cov: "\<forall>p\<in>set ps. \<exists>q\<in>set (points_of t). point_eq q p"
    using puts_general[of Null alloc i ps] by auto
  have "get_size t = length (labels_of t)" using s by (rule sizes_ok_get_size)
  then have "ps_size t = length (points_of t)" by (simp add: ps_size_def points_of_def)
  then have c: "ps_size t = card (set (points_of t))" using distinct_card[OF d] by simp
  have r: "\<exists>t'. put a t q = Inr t' \<and>
        (if ps_contains t q True
         then ps_size t' = ps_size t \<and> mset (points_of t') = mset (points_of t)
         else ps_size t' = ps_size t + 1 \<and> mset (points_of t') = mset (points_of t) + {#q#}) \<and>
        (q \<in> set (points_of t) \<longrightarrow> ps_contains t q True) \<and>
        (ps_contains t q True \<longrightarrow> (\<exists>q'\<in>set (points_of t). point_eq q' q))" for q
  proof -
    obtain t' where 1: "put a t q = Inr t'"
      and 2: "get_size t' = get_size t + (if ps_contains t q True then 0 else 1)"
      and 3: "mset (points_of t') =
        mset (points_of t) + (if ps_contains t q True then {#} else {#q#})"
      using put_general[OF s o d, of a q] by metis
    show ?thesis
      using 1 2 3 ordered_contains[OF o, of q] contains_point_eq[of t q True]
      by (simp add: ps_size_def)
  qed
  have e: "set (points_of t) = set ps \<and> ps_size t = card (set ps) \<and>
        ps_size t = length (eps_distinct ps)"
    if sep: "\<forall>p\<in>set ps. \<forall>q\<in>set ps. point_eq p q \<longrightarrow> p = q"
  proof -
    have "set ps \<subseteq> set (points_of t)"
    proof
      fix x assume x: "x \<in> set ps"
      then obtain q where q: "q \<in> set (points_of t)" "point_eq q x" using cov by blast
      then have "q = x" using sep sub x by blast
      then show "x \<in> set (points_of t)" using q by simp
    qed
    then have st: "set (points_of t) = set ps" using sub by blast
    then show ?thesis
      using c eps_distinct_separated[OF sep] distinct_card[of "eps_distinct ps"] by simp
  qed
  show ?thesis using p d sub c cov r e by blast
qed


text \<open>
  C4 as amended, at the sequence \<open>(0,0)\<close>, \<open>(1,1)\<close>, \<open>(0,0)\<close>, \<open>(0,2)\<close>: three points are
  stored, and inserting \<open>(1,1)\<close> once more changes nothing.
\<close>

theorem C4_size_counts_stored_points_witness:
  "\<exists>t. puts (\<lambda>i. i) 0 Null [Point 0 0, Point 1 1, Point 0 0, Point 0 2] = Inr t \<and>
     ps_size t = 3 \<and>
     length (eps_distinct [Point 0 0, Point 1 1, Point 0 0, Point 0 2]) = 3 \<and>
     set (points_of t) = {Point 0 0, Point 1 1, Point 0 2} \<and>
     ps_contains t (Point 1 1) True \<and>
     (\<exists>t'. put 9 t (Point 1 1) = Inr t' \<and> ps_size t' = 3 \<and>
           mset (points_of t') = mset (points_of t))"
proof -
  define ps where "ps = [Point 0 0, Point 1 1, Point 0 0, Point 0 2]"
  have sp: "set ps = {Point 0 0, Point 1 1, Point 0 2}" unfolding ps_def by auto
  have sep: "\<forall>p\<in>set ps. \<forall>q\<in>set ps. point_eq p q \<longrightarrow> p = q"
    unfolding sp by (simp add: point_eq_def EPS_def)
  have c: "card (set ps) = 3" unfolding sp by simp
  obtain t where p: "puts (\<lambda>i. i) 0 Null ps = Inr t"
    and r: "\<forall>p. \<exists>t'. put 9 t p = Inr t' \<and>
        (if ps_contains t p True
         then ps_size t' = ps_size t \<and> mset (points_of t') = mset (points_of t)
         else ps_size t' = ps_size t + 1 \<and> mset (points_of t') = mset (points_of t) + {#p#}) \<and>
        (p \<in> set (points_of t) \<longrightarrow> ps_contains t p True) \<and>
        (ps_contains t p True \<longrightarrow> (\<exists>q\<in>set (points_of t). point_eq q p))"
    and e: "(\<forall>p\<in>set ps. \<forall>q\<in>set ps. point_eq p q \<longrightarrow> p = q) \<longrightarrow>
        set (points_of t) = set ps \<and> ps_size t = card (set ps) \<and>
        ps_size t = length (eps_distinct ps)"
    using C4_size_counts_stored_points[of "\<lambda>i. i" 0 ps 9] by blast
  from e sep have st: "set (points_of t) = set ps" and sz0: "ps_size t = card (set ps)"
    and le0: "ps_size t = length (eps_distinct ps)" by blast+
  have sz: "ps_size t = 3" using sz0 c by simp
  have le: "length (eps_distinct ps) = 3" using le0 sz by simp
  from r obtain t' where t': "put 9 t (Point 1 1) = Inr t'"
    and i: "if ps_contains t (Point 1 1) True
         then ps_size t' = ps_size t \<and> mset (points_of t') = mset (points_of t)
         else ps_size t' = ps_size t + 1 \<and> mset (points_of t') = mset (points_of t) + {#Point 1 1#}"
    and m: "Point 1 1 \<in> set (points_of t) \<longrightarrow> ps_contains t (Point 1 1) True"
    by blast
  have "Point 1 1 \<in> set (points_of t)" unfolding st sp by simp
  then have ct: "ps_contains t (Point 1 1) True" using m by blast
  then have "ps_size t' = 3 \<and> mset (points_of t') = mset (points_of t)" using i sz by simp
  then have "\<exists>t'. put 9 t (Point 1 1) = Inr t' \<and> ps_size t' = 3 \<and>
           mset (points_of t') = mset (points_of t)" using t' by blast
  then have "puts (\<lambda>i. i) 0 Null ps = Inr t \<and>
     ps_size t = 3 \<and> length (eps_distinct ps) = 3 \<and>
     set (points_of t) = {Point 0 0, Point 1 1, Point 0 2} \<and>
     ps_contains t (Point 1 1) True \<and>
     (\<exists>t'. put 9 t (Point 1 1) = Inr t' \<and> ps_size t' = 3 \<and>
           mset (points_of t') = mset (points_of t))"
    using p sz le st sp ct by simp
  then show ?thesis unfolding ps_def by (rule exI)
qed


text \<open>
  The baseline set keeps the three points of the counterexample apart as well: none of them
  is found equivalent to a stored one under \<open>Point::operator<\<close>.
\<close>

lemma baseline_keeps_epsilon_equal_points:
  "length (foldl rb_put [] [Point 1 0, Point 1 5, Point (1 - 1 / 2 ^ 53) 5]) = 3"
  by (simp add: rb_put_def point_less_def EPS_def)


section \<open>C5: the distance from a rect to a point\<close>

text \<open>
  C5 says that \<open>Rect::distance(p)\<close> never exceeds the distance from \<open>p\<close> to a point of
  the rect.  For the rect \<open>((-1,-1), (0,0))\<close> and \<open>p = (-3\<cdot>2\<^sup>-\<^sup>5\<^sup>4, 4\<cdot>2\<^sup>-\<^sup>5\<^sup>4)\<close> the point
  \<open>q = (-3\<cdot>2\<^sup>-\<^sup>5\<^sup>4, 0)\<close> lies in the rect at distance \<open>4\<cdot>2\<^sup>-\<^sup>5\<^sup>4\<close> from \<open>p\<close>, while
  \<open>Rect::distance\<close> takes \<open>p\<close> for a point of the first quadrant of the top right
  corner and returns the distance to that corner, \<open>5\<cdot>2\<^sup>-\<^sup>5\<^sup>4\<close>.
\<close>

theorem C5_rect_distance_overestimates:
  "xmin (Rect (Point (-1) (-1)) (Point 0 0)) \<le> m_x (Point (- 3 / 2 ^ 54) 0) \<and>
   m_x (Point (- 3 / 2 ^ 54) 0) \<le> xmax (Rect (Point (-1) (-1)) (Point 0 0)) \<and>
   ymin (Rect (Point (-1) (-1)) (Point 0 0)) \<le> m_y (Point (- 3 / 2 ^ 54) 0) \<and>
   m_y (Point (- 3 / 2 ^ 54) 0) \<le> ymax (Rect (Point (-1) (-1)) (Point 0 0)) \<and>
   contains (Rect (Point (-1) (-1)) (Point 0 0)) (Point (- 3 / 2 ^ 54) 0) \<and>
   distance (Point (- 3 / 2 ^ 54) (4 / 2 ^ 54)) (Point (- 3 / 2 ^ 54) 0) = 4 / 2 ^ 54 \<and>
   rect_distance (Rect (Point (-1) (-1)) (Point 0 0)) (Point (- 3 / 2 ^ 54) (4 / 2 ^ 54)) = 5 / 2 ^ 54"
proof -
  have d1: "distance (Point (- 3 / 2 ^ 54) (4 / 2 ^ 54)) (Point (- 3 / 2 ^ 54) 0) = 4 / 2 ^ 54"
    by (rule distance_eqI) simp_all
  have d2: "distance (Point 0 0) (Point (- 3 / 2 ^ 54) (4 / 2 ^ 54)) = 5 / 2 ^ 54"
    by (rule distance_eqI) simp_all
  have r: "rect_distance (Rect (Point (-1) (-1)) (Point 0 0)) (Point (- 3 / 2 ^ 54) (4 / 2 ^ 54))
      = distance (Point 0 0) (Point (- 3 / 2 ^ 54) (4 / 2 ^ 54))"
    by (simp add: rect_distance_def contains_def EPS_def)
  have c: "contains (Rect (Point (-1) (-1)) (Point 0 0)) (Point (- 3 / 2 ^ 54) 0)"
    by (simp add: contains_def EPS_def)
  show ?thesis using d1 d2 r c by (simp add: xmin_def xmax_def ymin_def ymax_def)
qed


text \<open>
  The overestimate reaches the nearest-neighbour search, which prunes with it.  In the
  set built by \<open>put((-4\<cdot>2\<^sup>-\<^sup>5\<^sup>4, 17\<cdot>2\<^sup>-\<^sup>5\<^sup>5))\<close>, \<open>put((-1,-1))\<close>, \<open>put((0,-1))\<close>,
  \<open>put((-4\<cdot>2\<^sup>-\<^sup>5\<^sup>4, 0))\<close>, where no subtree is rebuilt, the right subtree of the root has
  the rect \<open>((-4\<cdot>2\<^sup>-\<^sup>5\<^sup>4, -1), (0,0))\<close>; for the query \<open>(-3\<cdot>2\<^sup>-\<^sup>5\<^sup>4, 4\<cdot>2\<^sup>-\<^sup>5\<^sup>4)\<close> its distance is
  taken to be \<open>5\<cdot>2\<^sup>-\<^sup>5\<^sup>4\<close>, the subtree is pruned, and the search returns the root
  although the point \<open>(-4\<cdot>2\<^sup>-\<^sup>5\<^sup>4, 0)\<close> of the subtree is closer.
\<close>

lemma nearest_prunes_closer_point:
  "puts (\<lambda>i. i) 0 Null
      [Point (- 4 / 2 ^ 54) (17 / 2 ^ 55), Point (- 1) (- 1), Point 0 (- 1), Point (- 4 / 2 ^ 54) 0] =
     Inr (Node 0 (Point (- 4 / 2 ^ 54) (17 / 2 ^ 55))
            (Rect (Point (- 1) (- 1)) (Point 0 (17 / 2 ^ 55))) 4
            (Node 1 (Point (- 1) (- 1)) (Rect (Point (- 1) (- 1)) (Point (- 1) (- 1))) 1
               Null Null (Some 0))
            (Node 2 (Point 0 (- 1)) (Rect (Point (- 4 / 2 ^ 54) (- 1)) (Point 0 0)) 2 Null
               (Node 3 (Point (- 4 / 2 ^ 54) 0)
                  (Rect (Point (- 4 / 2 ^ 54) 0) (Point (- 4 / 2 ^ 54) 0)) 1 Null Null (Some 2))
               (Some 0))
            None) \<and>
   nearest (Node 0 (Point (- 4 / 2 ^ 54) (17 / 2 ^ 55))
            (Rect (Point (- 1) (- 1)) (Point 0 (17 / 2 ^ 55))) 4
            (Node 1 (Point (- 1) (- 1)) (Rect (Point (- 1) (- 1)) (Point (- 1) (- 1))) 1
               Null Null (Some 0))
            (Node 2 (Point 0 (- 1)) (Rect (Point (- 4 / 2 ^ 54) (- 1)) (Point 0 0)) 2 Null
               (Node 3 (Point (- 4 / 2 ^ 54) 0)
                  (Rect (Point (- 4 / 2 ^ 54) 0) (Point (- 4 / 2 ^ 54) 0)) 1 Null Null (Some 2))
               (Some 0))
            None) (Point (- 3 / 2 ^ 54) (4 / 2 ^ 54))
     = Inr (Some (Point (- 4 / 2 ^ 54) (17 / 2 ^ 55))) \<and>
   distance (Point (- 3 / 2 ^ 54) (4 / 2 ^ 54)) (Point (- 4 / 2 ^ 54) 0)
     < distance (Point (- 3 / 2 ^ 54) (4 / 2 ^ 54)) (Point (- 4 / 2 ^ 54) (17 / 2 ^ 55))"
proof -
  let ?q = "Point (- 3 / 2 ^ 54) (4 / 2 ^ 54)"
  let ?C = "Point (- 4 / 2 ^ 54) (17 / 2 ^ 55)"
  let ?B = "Point (- 4 / 2 ^ 54) 0"
  let ?L = "Point (- 1) (- 1)"
  let ?left = "Node 1 ?L (Rect ?L ?L) 1 Null Null (Some 0)"
  let ?sub = "Node 2 (Point 0 (- 1)) (Rect (Point (- 4 / 2 ^ 54) (- 1)) (Point 0 0)) 2 Null
               (Node 3 ?B (Rect ?B ?B) 1 Null Null (Some 2)) (Some 0)"
  let ?t = "Node 0 ?C (Rect (Point (- 1) (- 1)) (Point 0 (17 / 2 ^ 55))) 4 ?left ?sub None"
  have build: "puts (\<lambda>i. i) 0 Null [?C, ?L, Point 0 (- 1), ?B] = Inr ?t"
    by code_simp
  have dle: "distance ?q ?C \<le> 5 / 2 ^ 54"
    unfolding distance_def point.sel
    by (intro real_le_lsqrt) (simp_all add: sqr_def power2_eq_square)
  have big: "5 / 2 ^ 54 < DBL_MAX" by (simp add: DBL_MAX_def)
  have c1: "distance ?q ?C < DBL_MAX" using dle big by linarith
  have r0: "rect_distance (Rect (Point (- 1) (- 1)) (Point 0 (17 / 2 ^ 55))) ?q = 0"
    by (simp add: rect_distance_def contains_def EPS_def)
  have c0: "\<not> DBL_MAX \<le> rect_distance (Rect (Point (- 1) (- 1)) (Point 0 (17 / 2 ^ 55))) ?q"
    unfolding r0 using big by simp
  have rl: "rect_distance (Rect ?L ?L) ?q = distance ?L ?q"
    by (simp add: rect_distance_def contains_def EPS_def)
  have "1 / 2 \<le> distance ?L ?q"
    unfolding distance_def point.sel
    by (intro real_le_rsqrt) (simp add: sqr_def power2_eq_square)
  moreover have "(5::real) / 2 ^ 54 \<le> 1 / 2" by simp
  ultimately have pl: "distance ?q ?C \<le> rect_distance (Rect ?L ?L) ?q"
    unfolding rl using dle by linarith
  have d5: "distance (Point 0 0) ?q = 5 / 2 ^ 54"
    by (rule distance_eqI) simp_all
  have rs: "rect_distance (Rect (Point (- 4 / 2 ^ 54) (- 1)) (Point 0 0)) ?q = distance (Point 0 0) ?q"
    by (simp add: rect_distance_def contains_def EPS_def)
  have p: "distance ?q ?C \<le> rect_distance (Rect (Point (- 4 / 2 ^ 54) (- 1)) (Point 0 0)) ?q"
    unfolding rs d5 by (rule dle)
  have "nearest_rec ?t ?q (DBL_MAX, None) = (distance ?q ?C, Some 0)"
    by (simp only: nearest_rec_closer[OF c0 c1] nearest_rec_prune[OF pl] nearest_rec_prune[OF p])
  then have n: "nearest ?t ?q = Inr (Some ?C)" by (simp add: nearest_def)
  have lt: "distance ?q ?B < distance ?q ?C"
    by (simp add: distance_def sqr_def)
  show ?thesis using build n lt by simp
qed


section \<open>C6: the concrete scenario\<close>

text \<open>
  C6: for the set holding \<open>(0,0)\<close>, \<open>(1,1)\<close>, \<open>(2,2)\<close>, \<open>(0,2)\<close>, \<open>(2,0)\<close>, the range query
  with the rect \<open>((0,0), (1,1))\<close> yields \<open>(0,0)\<close> and \<open>(1,1)\<close>, the nearest point to
  \<open>(0.9, 0.9)\<close> is \<open>(1,1)\<close>, and the three nearest points to \<open>(1,1)\<close> are \<open>(1,1)\<close> and two
  of the four corners, at the distances \<open>0\<close>, \<open>\<surd>2\<close>, \<open>\<surd>2\<close>.  The set is built by
  the five \<open>put\<close> calls; the results of the range and of the k-nearest query are drained
  through their iterators.
\<close>

theorem C6_concrete_scenario:
  "puts (\<lambda>i. i) 0 Null [Point 0 0, Point 1 1, Point 2 2, Point 0 2, Point 2 0] = Inr scenario_tree \<and>
   traversal scenario_tree = Some (Inr [Point 0 0, Point 0 2, Point 1 1, Point 2 0, Point 2 2]) \<and>
   range_query scenario_tree (Rect (Point 0 0) (Point 1 1)) = (ListIt [1, 0], iterator_default) \<and>
   drain scenario_tree (ListIt [1, 0]) iterator_default [] = Some (Inr [Point 0 0, Point 1 1]) \<and>
   nearest scenario_tree (Point (9 / 10) (9 / 10)) = Inr (Some (Point 1 1)) \<and>
   nearest_k scenario_tree (Point 1 1) 3 = Some (Inr (ListIt [3, 0, 1], iterator_default)) \<and>
   drain scenario_tree (ListIt [3, 0, 1]) iterator_default [] =
     Some (Inr [Point 1 1, Point 0 0, Point 0 2]) \<and>
   map (distance (Point 1 1)) [Point 1 1, Point 0 0, Point 0 2] = [0, sqrt 2, sqrt 2]"
  using scenario_puts scenario_traversal scenario_range scenario_range_drain scenario_nearest
    scenario_nearest_k scenario_nearest_k_drain scenario_distances
  by (simp add: iterator_default_def del: One_nat_def)


section \<open>C7: building from a point list and traversing\<close>

text \<open>
  C7 says that building a set from any list of points, the empty list included, and
  traversing it yields the points of the list.  For the empty list the constructor
  passes its null root to \<open>set_parents\<close>, which dereferences it.
\<close>

theorem C7_file_constructor_empty_dereferences_null:
  "PointSet_of_file alloc [] = Inl NullDeref"
  by (simp add: PointSet_of_file_def build_tree.simps)


section \<open>C8: the end of a list-backed iterator\<close>

text \<open>
  C8 says that a list-backed iterator advanced past its last element compares equal to
  the \<open>end()\<close> of the full traversal and to the second iterator of the pair it was
  returned in.  For the set holding \<open>(0,0)\<close> and the range query with \<open>((0,0), (1,1))\<close>:
  the first iterator holds one node, one \<open>++\<close> leaves the empty vector, which is equal
  to the second iterator of the pair but not to \<open>end()\<close>, the other alternative of the
  variant holding a null pointer.
\<close>

theorem C8_exhausted_list_iterator_is_not_end:
  "range_query (new_node 0 (Point 0 0)) (Rect (Point 0 0) (Point 1 1)) = (ListIt [0], ListIt []) \<and>
   it_incr (new_node 0 (Point 0 0)) (ListIt [0]) = Some (Inr (ListIt [])) \<and>
   it_eq (ListIt []) (snd (range_query (new_node 0 (Point 0 0)) (Rect (Point 0 0) (Point 1 1)))) \<and>
   \<not> it_eq (ListIt []) (ps_end (new_node 0 (Point 0 0)))"
  by (simp add: range_query_def new_node_def intersects_def contains_def EPS_def
      xmin_def xmax_def ymin_def ymax_def iterator_default_def it_eq_def ps_end_def)


text \<open>
  C8 as amended: a list-backed iterator advanced as many times as it holds nodes is
  the default-constructed iterator; that is the second iterator of the pair that
  \<open>range\<close> returns, and of every pair of \<open>nearest(p, k)\<close> whose first iterator is
  list-backed; it is not equal to \<open>end()\<close>, to which only a full-traversal cursor that
  holds the null pointer is equal.
\<close>

theorem C8_exhausted_list_iterator:
  "advance t (length ns) (ListIt ns) = Some (Inr iterator_default) \<and>
   (\<exists>ms. range_query t rc = (ListIt ms, iterator_default)) \<and>
   (nearest_k t pt k = Some (Inr (ListIt ns', e)) \<longrightarrow> e = iterator_default) \<and>
   \<not> it_eq iterator_default (ps_end t) \<and>
   it_eq (NodeIt None) (ps_end t)"
proof -
  have "nearest_k t pt k = Some (Inr (ListIt ns', e)) \<Longrightarrow> e = iterator_default"
    by (auto simp: nearest_k_def ps_begin_def iterator_default_def
        split: if_splits option.splits sum.splits prod.splits)
  then show ?thesis
    by (simp add: advance_list iterator_default_def range_query_def it_eq_def ps_end_def)
qed


text \<open>
  C8 as amended, at the set of the concrete scenario, the result of its range query and
  its three nearest neighbours of \<open>(1,1)\<close>.
\<close>

theorem C8_exhausted_list_iterator_witness:
  "advance scenario_tree (length [1, 0 :: nat]) (ListIt [1, 0]) = Some (Inr iterator_default) \<and>
   (\<exists>ms. range_query scenario_tree (Rect (Point 0 0) (Point 1 1)) = (ListIt ms, iterator_default)) \<and>
   nearest_k scenario_tree (Point 1 1) 3 = Some (Inr (ListIt [3, 0, 1], iterator_default)) \<and>
   \<not> it_eq iterator_default (ps_end scenario_tree) \<and>
   it_eq (NodeIt None) (ps_end scenario_tree)"
  using C8_exhausted_list_iterator[of scenario_tree "[1, 0]" "Rect (Point 0 0) (Point 1 1)"
      "Point 1 1" 3 "[3, 0, 1]" iterator_default] scenario_nearest_k
  by (simp del: One_nat_def)


section \<open>C9: the copy constructor\<close>

text \<open>
  C9 says that copying a set never dereferences a null node, the empty set included.
  The copy of the empty set passes its null root to \<open>set_parents\<close>, which dereferences
  it.
\<close>

theorem C9_copy_of_empty_dereferences_null:
  "PointSet_copy alloc Null = Inl NullDeref"
  by (simp add: PointSet_copy_def)


section \<open>C10: insertion keeps the stored points\<close>

text \<open>
  C10 says that \<open>put(p)\<close> never removes or alters an element: the points enumerated by
  the full traversal after the call are those enumerated before it, with at most \<open>p\<close>
  added, also when a subtree is rebuilt.  The set is any well-formed node graph (no two
  nodes at one address, every parent link right, as the constructors and \<open>put\<close> leave
  it) and \<open>a\<close> is the address of the node that \<open>put\<close> may allocate, not in use in the
  set.  Both traversals return, and \<open>put\<close> leaves a well-formed node graph.
\<close>

theorem C10_put_preserves_elements:
  assumes "wf_tree t" and "a \<notin> set (addrs_of t)"
  shows "\<exists>t' ps ps'. put a t pt = Inr t' \<and> wf_tree t' \<and>
           traversal t = Some (Inr ps) \<and> traversal t' = Some (Inr ps') \<and>
           set ps \<subseteq> set ps' \<and> set ps' \<subseteq> insert pt (set ps)"
proof -
  obtain t' where p: "put a t pt = Inr t'" using put_total by blast
  have w: "wf_tree t'" using put_wf[OF assms p] by simp
  have "traversal t = Some (Inr (points_of t))" using assms(1) by (rule traversal_wf)
  moreover have "traversal t' = Some (Inr (points_of t'))" using w by (rule traversal_wf)
  ultimately show ?thesis using p w put_points[OF p] by blast
qed


text \<open>
  C10 at the set \<open>{(0,0), (1,1)}\<close> and the point \<open>(2,2)\<close>, whose insertion rebuilds the
  tree from the root.
\<close>

theorem C10_put_preserves_elements_witness:
  "wf_tree (Node 0 (Point 0 0) (Rect (Point 0 0) (Point 1 1)) 2 Null
            (Node 1 (Point 1 1) (Rect (Point 1 1) (Point 1 1)) 1 Null Null (Some 0)) None) \<and>
   2 \<notin> set (addrs_of (Node 0 (Point 0 0) (Rect (Point 0 0) (Point 1 1)) 2 Null
            (Node 1 (Point 1 1) (Rect (Point 1 1) (Point 1 1)) 1 Null Null (Some 0)) None)) \<and>
   (\<exists>t' ps ps'. put 2 (Node 0 (Point 0 0) (Rect (Point 0 0) (Point 1 1)) 2 Null
            (Node 1 (Point 1 1) (Rect (Point 1 1) (Point 1 1)) 1 Null Null (Some 0)) None)
           (Point 2 2) = Inr t' \<and> wf_tree t' \<and>
       traversal (Node 0 (Point 0 0) (Rect (Point 0 0) (Point 1 1)) 2 Null
            (Node 1 (Point 1 1) (Rect (Point 1 1) (Point 1 1)) 1 Null Null (Some 0)) None)
         = Some (Inr ps) \<and>
       traversal t' = Some (Inr ps') \<and> set ps \<subseteq> set ps' \<and> set ps' \<subseteq> insert (Point 2 2) (set ps))"
proof -
  let ?t = "Node 0 (Point 0 0) (Rect (Point 0 0) (Point 1 1)) 2 Null
            (Node 1 (Point 1 1) (Rect (Point 1 1) (Point 1 1)) 1 Null Null (Some 0)) None"
  have w: "wf_tree ?t" by (simp add: wf_tree_def)
  have f: "2 \<notin> set (addrs_of ?t)" by simp
  show ?thesis using C10_put_preserves_elements[OF w f, of "Point 2 2"] w f by blast
qed


end
